theory Spec2Isabelle
  imports Main "HOL-Library.Sublist"
begin

section \<open>The URL joiner (ratlib/api/http.py, urljoin)\<close>

text \<open>
  \<^verbatim>\<open>urljoin(*parts)\<close> runs the generator \<^verbatim>\<open>_gen\<close> over its parts and concatenates what it
  yields. The generator keeps \<^verbatim>\<open>prev\<close>, the piece it yielded last (\<^verbatim>\<open>None\<close> at the start).
  Both \<^verbatim>\<open>None\<close> and the empty string are falsy, so \<^verbatim>\<open>not prev\<close> holds for either.
\<close>

fun falsy :: "string option \<Rightarrow> bool" where
  "falsy None = True"
| "falsy (Some s) = (s = [])"

fun gen :: "string option \<Rightarrow> string list \<Rightarrow> string list" where
  "gen prev [] = []"
| "gen prev (part # parts) =
     (if part = [] then gen prev parts
      else if falsy prev then part # gen (Some part) parts
      else if (last (the prev) = CHR ''/'') \<noteq> (hd part = CHR ''/'')
        then part # gen (Some part) parts
      else if hd part = CHR ''/''
        then tl part # gen (Some (tl part)) parts
      else ''/'' # part # gen (Some part) parts)"

definition urljoin :: "string list \<Rightarrow> string" where
  "urljoin parts = concat (gen None parts)"

text \<open>
  The contract in the words of the docstring ("ensure each chunk is separated by exactly
  one /"): joining a chunk onto what has been joined so far leaves exactly one slash at the
  seam, whatever the two ends looked like.
\<close>

definition join_one :: "string \<Rightarrow> string \<Rightarrow> string" where
  "join_one acc part =
     (if acc = [] then part
      else (if last acc = CHR ''/'' then butlast acc else acc) @ ''/'' @
           (if hd part = CHR ''/'' then tl part else part))"

definition urljoin_spec :: "string list \<Rightarrow> string" where
  "urljoin_spec parts = foldl join_one [] (filter (\<lambda>p. p \<noteq> []) parts)"

section \<open>The output filter (ratlib/sopel.py, OutputFilterWrapper.transform)\<close>

text \<open>
  Both patterns are compiled with \<^verbatim>\<open>re.IGNORECASE\<close> and consist of literal characters only,
  so a match at a position is a comparison of the lower-cased text with the literal
  alternatives of the pattern, all of one width. Characters are read as ASCII.
\<close>

definition lower :: "char \<Rightarrow> char" where
  "lower c = (case map_of (zip ''ABCDEFGHIJKLMNOPQRSTUVWXYZ'' ''abcdefghijklmnopqrstuvwxyz'') c
              of Some l \<Rightarrow> l | None \<Rightarrow> c)"

record replacement =
  alts :: "string list"
  width :: nat
  expand :: "string \<Rightarrow> string"

definition match_at :: "replacement \<Rightarrow> string \<Rightarrow> bool" where
  "match_at r s = (map lower (take (width r) s) \<in> set (alts r))"

text \<open>
  \<^verbatim>\<open>pattern.sub(repl, message)\<close>: scan from the left; where the pattern matches, emit the
  expanded template and go on behind the match, otherwise emit the character and go on
  at the next one.
\<close>

fun re_sub :: "replacement \<Rightarrow> string \<Rightarrow> string" where
  "re_sub r [] = []"
| "re_sub r (c # cs) =
     (if match_at r (c # cs)
      then expand r (take (width r) (c # cs)) @ re_sub r (drop (width r - 1) cs)
      else c # re_sub r cs)"

text \<open>\<^verbatim>\<open>(r)at(signal)\<close> with template \<^verbatim>\<open>\g<1>@\g<2>\<close>.\<close>

definition ratsignal :: replacement where
  "ratsignal = \<lparr>alts = [''ratsignal''], width = 9,
                 expand = (\<lambda>m. take 1 m @ ''@'' @ drop 3 m)\<rparr>"

text \<open>\<^verbatim>\<open>(cod|cas)e (r)e(d)\<close> with template \<^verbatim>\<open>\g<1>3 \g<2>3\g<3>\<close>.\<close>

definition codered :: replacement where
  "codered = \<lparr>alts = [''code red'', ''case red''], width = 8,
               expand = (\<lambda>m. take 3 m @ ''3 '' @ take 1 (drop 5 m) @ ''3'' @ drop 7 m)\<rparr>"

definition replacements :: "replacement list" where
  "replacements = [ratsignal, codered]"

definition transform :: "string \<Rightarrow> string" where
  "transform message = foldl (\<lambda>m r. re_sub r m) message replacements"

text \<open>
  A text is clean for a pattern when the pattern matches at none of its positions.
\<close>

fun clean :: "replacement \<Rightarrow> string \<Rightarrow> bool" where
  "clean r [] = True"
| "clean r (c # cs) = (\<not> match_at r (c # cs) \<and> clean r cs)"

section \<open>JSON values and the \<^verbatim>\<open>json\<close> module\<close>

text \<open>
  What \<^verbatim>\<open>json.loads\<close> returns and \<^verbatim>\<open>json.dumps\<close> accepts: \<^verbatim>\<open>None\<close>, booleans, integers,
  strings, lists and dictionaries with string keys. A dictionary is an association list
  in insertion order. Python's floats have no counterpart here; a text that \<^verbatim>\<open>loads\<close> would
  read as a float is answered with \<open>Unsupported\<close>, as is an escape for a character beyond
  code point 255. Characters are code points 0 to 255.
\<close>

datatype json = JNull | JBool bool | JInt int | JStr string
  | JArr "json list" | JObj "(string \<times> json) list"

subsection \<open>\<^verbatim>\<open>json.dumps\<close> with its default options\<close>

definition hexd :: "nat \<Rightarrow> char" where
  "hexd n = ''0123456789abcdef'' ! n"

definition hex4_digits :: "nat \<Rightarrow> string" where
  "hex4_digits n = [hexd (n div 4096 mod 16), hexd (n div 256 mod 16),
                    hexd (n div 16 mod 16), hexd (n mod 16)]"

text \<open>
  \<^verbatim>\<open>ensure_ascii\<close> is on: the quote and the backslash are escaped, the control characters
  with a short escape use it, printable ASCII (space to tilde) stands for itself, and
  everything else is written as \<^verbatim>\<open>\uXXXX\<close> with four lower-case hex digits.
\<close>

definition escape :: "char \<Rightarrow> string" where
  "escape c =
     (if c = CHR 0x22 then [CHR 0x5C, CHR 0x22]
      else if c = CHR 0x5C then [CHR 0x5C, CHR 0x5C]
      else if c = CHR 0x08 then [CHR 0x5C, CHR ''b'']
      else if c = CHR 0x0C then [CHR 0x5C, CHR ''f'']
      else if c = CHR 0x0A then [CHR 0x5C, CHR ''n'']
      else if c = CHR 0x0D then [CHR 0x5C, CHR ''r'']
      else if c = CHR 0x09 then [CHR 0x5C, CHR ''t'']
      else if 0x20 \<le> (of_char c :: nat) \<and> (of_char c :: nat) \<le> 0x7E then [c]
      else CHR 0x5C # CHR ''u'' # hex4_digits (of_char c))"

definition dumps_str :: "string \<Rightarrow> string" where
  "dumps_str s = CHR 0x22 # concat (map escape s) @ [CHR 0x22]"

fun digits :: "nat \<Rightarrow> string" where
  "digits n = (if n < 10 then [hexd n] else digits (n div 10) @ [hexd (n mod 10)])"

declare digits.simps [simp del]

definition str_int :: "int \<Rightarrow> string" where
  "str_int i = (if i < 0 then CHR ''-'' # digits (nat (- i)) else digits (nat i))"

fun dumps :: "json \<Rightarrow> string"
  and dumps_items :: "json list \<Rightarrow> string"
  and dumps_members :: "(string \<times> json) list \<Rightarrow> string" where
  "dumps JNull = ''null''"
| "dumps (JBool b) = (if b then ''true'' else ''false'')"
| "dumps (JInt i) = str_int i"
| "dumps (JStr s) = dumps_str s"
| "dumps (JArr xs) = ''['' @ dumps_items xs @ '']''"
| "dumps (JObj kvs) = ''{'' @ dumps_members kvs @ ''}''"
| "dumps_items [] = []"
| "dumps_items [x] = dumps x"
| "dumps_items (x # y # ys) = dumps x @ '', '' @ dumps_items (y # ys)"
| "dumps_members [] = []"
| "dumps_members [(k, v)] = dumps_str k @ '': '' @ dumps v"
| "dumps_members ((k, v) # p # ps) = dumps_str k @ '': '' @ dumps v @ '', '' @ dumps_members (p # ps)"

subsection \<open>\<^verbatim>\<open>json.dumps\<close> with \<^verbatim>\<open>sort_keys=True\<close> and \<^verbatim>\<open>indent=4\<close>, as the request log uses it\<close>

fun str_less :: "string \<Rightarrow> string \<Rightarrow> bool" where
  "str_less [] [] = False"
| "str_less [] (b # bs) = True"
| "str_less (a # as) [] = False"
| "str_less (a # as) (b # bs) =
     ((of_char a :: nat) < of_char b \<or> (a = b \<and> str_less as bs))"

fun insert_key :: "string \<times> 'a \<Rightarrow> (string \<times> 'a) list \<Rightarrow> (string \<times> 'a) list" where
  "insert_key p [] = [p]"
| "insert_key p (q # qs) = (if str_less (fst p) (fst q) then p # q # qs else q # insert_key p qs)"

definition sort_items :: "(string \<times> 'a) list \<Rightarrow> (string \<times> 'a) list" where
  "sort_items kvs = foldr insert_key kvs []"

fun sort_keys :: "json \<Rightarrow> json"
  and sort_keys_items :: "json list \<Rightarrow> json list"
  and sort_keys_members :: "(string \<times> json) list \<Rightarrow> (string \<times> json) list" where
  "sort_keys (JArr xs) = JArr (sort_keys_items xs)"
| "sort_keys (JObj kvs) = JObj (sort_items (sort_keys_members kvs))"
| "sort_keys JNull = JNull"
| "sort_keys (JBool b) = JBool b"
| "sort_keys (JInt i) = JInt i"
| "sort_keys (JStr s) = JStr s"
| "sort_keys_items [] = []"
| "sort_keys_items (x # xs) = sort_keys x # sort_keys_items xs"
| "sort_keys_members [] = []"
| "sort_keys_members ((k, v) # ps) = (k, sort_keys v) # sort_keys_members ps"

definition newline_indent :: "nat \<Rightarrow> string" where
  "newline_indent level = CHR 0x0A # replicate (4 * level) CHR '' ''"

fun pretty :: "nat \<Rightarrow> json \<Rightarrow> string"
  and pretty_items :: "nat \<Rightarrow> json list \<Rightarrow> string"
  and pretty_members :: "nat \<Rightarrow> (string \<times> json) list \<Rightarrow> string" where
  "pretty level (JArr xs) =
     (if xs = [] then ''[]''
      else ''['' @ newline_indent (Suc level) @ pretty_items (Suc level) xs
           @ newline_indent level @ '']'')"
| "pretty level (JObj kvs) =
     (if kvs = [] then ''{}''
      else ''{'' @ newline_indent (Suc level) @ pretty_members (Suc level) kvs
           @ newline_indent level @ ''}'')"
| "pretty level JNull = ''null''"
| "pretty level (JBool b) = (if b then ''true'' else ''false'')"
| "pretty level (JInt i) = str_int i"
| "pretty level (JStr s) = dumps_str s"
| "pretty_items level [] = []"
| "pretty_items level [x] = pretty level x"
| "pretty_items level (x # y # ys) =
     pretty level x @ '','' @ newline_indent level @ pretty_items level (y # ys)"
| "pretty_members level [] = []"
| "pretty_members level [(k, v)] = dumps_str k @ '': '' @ pretty level v"
| "pretty_members level ((k, v) # p # ps) =
     dumps_str k @ '': '' @ pretty level v @ '','' @ newline_indent level
     @ pretty_members level (p # ps)"

definition dumps_pretty :: "json \<Rightarrow> string" where
  "dumps_pretty d = pretty 0 (sort_keys d)"

subsection \<open>\<^verbatim>\<open>json.loads\<close>\<close>

text \<open>
  The decoder either scans a value and leaves the rest of the text, or fails: with
  \<^verbatim>\<open>json.JSONDecodeError\<close> (a \<^verbatim>\<open>ValueError\<close>), with a text outside this embedding, or because
  the recursion budget of the model is used up (which \<open>loads\<close> never lets happen: it
  hands out more than the text is long, and every recursive call has consumed a character).
\<close>

datatype failure = DecodeError | Unsupported | OutOfFuel

datatype 'a scan = Scanned 'a string | Failed failure

fun scan_map :: "('a \<Rightarrow> 'b) \<Rightarrow> 'a scan \<Rightarrow> 'b scan" where
  "scan_map f (Scanned x r) = Scanned (f x) r"
| "scan_map f (Failed e) = Failed e"

definition skip_ws :: "string \<Rightarrow> string" where
  "skip_ws s = dropWhile (\<lambda>c. c \<in> {CHR '' '', CHR 0x09, CHR 0x0A, CHR 0x0D}) s"

definition hexval :: "char \<Rightarrow> nat option" where
  "hexval c = map_of (zip ''0123456789abcdefABCDEF''
     [0, 1, 2, 3, 4, 5, 6, 7, 8, 9, 10, 11, 12, 13, 14, 15, 10, 11, 12, 13, 14, 15]) c"

fun hex4 :: "string \<Rightarrow> nat option" where
  "hex4 [a, b, c, d] =
     (case (hexval a, hexval b, hexval c, hexval d) of
        (Some x, Some y, Some z, Some w) \<Rightarrow> Some (((x * 16 + y) * 16 + z) * 16 + w)
      | _ \<Rightarrow> None)"
| "hex4 _ = None"

text \<open>The one-letter escapes of the decoder's \<^verbatim>\<open>BACKSLASH\<close> table.\<close>

definition unescape :: "char \<Rightarrow> char option" where
  "unescape e = map_of
     [(CHR 0x22, CHR 0x22), (CHR 0x5C, CHR 0x5C), (CHR ''/'', CHR ''/''),
      (CHR ''b'', CHR 0x08), (CHR ''f'', CHR 0x0C), (CHR ''n'', CHR 0x0A),
      (CHR ''r'', CHR 0x0D), (CHR ''t'', CHR 0x09)] e"

text \<open>
  \<^verbatim>\<open>scanstring\<close>, entered behind the opening quote, in strict mode: a raw control character
  inside a string is an error.
\<close>

fun scanstring :: "string \<Rightarrow> string scan" where
  "scanstring [] = Failed DecodeError"
| "scanstring (c # r) =
     (if c = CHR 0x22 then Scanned [] r
      else if c = CHR 0x5C then
        (case r of
           [] \<Rightarrow> Failed DecodeError
         | e # r' \<Rightarrow>
             if e = CHR ''u'' then
               (case hex4 (take 4 r') of
                  None \<Rightarrow> Failed DecodeError
                | Some n \<Rightarrow>
                    if n < 256 then scan_map ((#) (char_of n)) (scanstring (drop 4 r'))
                    else Failed Unsupported)
             else
               (case unescape e of
                  None \<Rightarrow> Failed DecodeError
                | Some ch \<Rightarrow> scan_map ((#) ch) (scanstring r')))
      else if (of_char c :: nat) < 0x20 then Failed DecodeError
      else scan_map ((#) c) (scanstring r))"

definition is_digit :: "char \<Rightarrow> bool" where
  "is_digit c = (c \<in> set ''0123456789'')"

definition digit_val :: "char \<Rightarrow> nat" where
  "digit_val c = (of_char c :: nat) - 48"

definition nat_of_digits :: "string \<Rightarrow> nat" where
  "nat_of_digits ds = foldl (\<lambda>a c. 10 * a + digit_val c) 0 ds"

text \<open>
  What follows the integer part of a number makes it a float when it is a fraction
  (\<^verbatim>\<open>.\<close> and a digit) or an exponent (\<^verbatim>\<open>e\<close> or \<^verbatim>\<open>E\<close>, an optional sign, a digit).
\<close>

fun float_tail :: "string \<Rightarrow> bool" where
  "float_tail (c # d # r) =
     ((c = CHR ''.'' \<and> is_digit d) \<or>
      ((c = CHR ''e'' \<or> c = CHR ''E'') \<and>
       (is_digit d \<or> ((d = CHR ''+'' \<or> d = CHR ''-'') \<and> (case r of [] \<Rightarrow> False | x # _ \<Rightarrow> is_digit x)))))"
| "float_tail _ = False"

text \<open>
  The number pattern \<^verbatim>\<open>-?(0|[1-9]\d*)\<close>: an optional sign, then a single zero or a
  digit string without a leading zero.
\<close>

definition scan_number :: "string \<Rightarrow> json scan" where
  "scan_number s =
     (let neg = (s \<noteq> [] \<and> hd s = CHR ''-'');
          s1 = (if neg then tl s else s)
      in case s1 of
           [] \<Rightarrow> Failed DecodeError
         | c # r \<Rightarrow>
             if \<not> is_digit c then Failed DecodeError
             else
               let ds = (if c = CHR ''0'' then [c] else c # takeWhile is_digit r);
                   rest = (if c = CHR ''0'' then r else dropWhile is_digit r)
               in if float_tail rest then Failed Unsupported
                  else Scanned (JInt (if neg then - int (nat_of_digits ds)
                                      else int (nat_of_digits ds))) rest)"

text \<open>
  \<^verbatim>\<open>dict(pairs)\<close>: a key that comes again replaces the value where the key first stood.
\<close>

fun setitem :: "string \<Rightarrow> json \<Rightarrow> (string \<times> json) list \<Rightarrow> (string \<times> json) list" where
  "setitem k v [] = [(k, v)]"
| "setitem k v ((k', v') # ps) = (if k' = k then (k, v) # ps else (k', v') # setitem k v ps)"

definition dict :: "(string \<times> json) list \<Rightarrow> (string \<times> json) list" where
  "dict pairs = foldl (\<lambda>d (k, v). setitem k v d) [] pairs"

text \<open>
  \<^verbatim>\<open>scan_once\<close> with \<^verbatim>\<open>JSONArray\<close> and \<^verbatim>\<open>JSONObject\<close>. \<open>scan_items\<close> is entered at the first
  character of an element, \<open>scan_members\<close> at the opening quote of a key.
\<close>

fun scan_value :: "nat \<Rightarrow> string \<Rightarrow> json scan"
  and scan_items :: "nat \<Rightarrow> string \<Rightarrow> json list scan"
  and scan_members :: "nat \<Rightarrow> string \<Rightarrow> (string \<times> json) list scan" where
  "scan_value 0 s = Failed OutOfFuel"
| "scan_value (Suc n) [] = Failed DecodeError"
| "scan_value (Suc n) (c # r) =
     (if c = CHR 0x22 then scan_map JStr (scanstring r)
      else if c = CHR ''{'' then
        (case skip_ws r of
           [] \<Rightarrow> Failed DecodeError
         | x # r' \<Rightarrow>
             if x = CHR ''}'' then Scanned (JObj []) r'
             else if x = CHR 0x22 then scan_map (\<lambda>ps. JObj (dict ps)) (scan_members n (x # r'))
             else Failed DecodeError)
      else if c = CHR ''['' then
        (case skip_ws r of
           [] \<Rightarrow> Failed DecodeError
         | x # r' \<Rightarrow>
             if x = CHR '']'' then Scanned (JArr []) r'
             else scan_map JArr (scan_items n (x # r')))
      else if c = CHR ''n'' \<and> take 3 r = ''ull'' then Scanned JNull (drop 3 r)
      else if c = CHR ''t'' \<and> take 3 r = ''rue'' then Scanned (JBool True) (drop 3 r)
      else if c = CHR ''f'' \<and> take 4 r = ''alse'' then Scanned (JBool False) (drop 4 r)
      else if c = CHR ''N'' \<and> take 2 r = ''aN'' then Failed Unsupported
      else if c = CHR ''I'' \<and> take 7 r = ''nfinity'' then Failed Unsupported
      else if c = CHR ''-'' \<and> take 8 r = ''Infinity'' then Failed Unsupported
      else scan_number (c # r))"
| "scan_items 0 s = Failed OutOfFuel"
| "scan_items (Suc n) s =
     (case scan_value n s of
        Failed e \<Rightarrow> Failed e
      | Scanned v r \<Rightarrow>
          (case skip_ws r of
             [] \<Rightarrow> Failed DecodeError
           | x # r' \<Rightarrow>
               if x = CHR '']'' then Scanned [v] r'
               else if x = CHR '','' then scan_map ((#) v) (scan_items n (skip_ws r'))
               else Failed DecodeError))"
| "scan_members 0 s = Failed OutOfFuel"
| "scan_members (Suc n) s =
     (case scanstring (tl s) of
        Failed e \<Rightarrow> Failed e
      | Scanned k r \<Rightarrow>
          (case skip_ws r of
             [] \<Rightarrow> Failed DecodeError
           | x # r' \<Rightarrow>
               if x \<noteq> CHR '':'' then Failed DecodeError
               else
                 (case scan_value n (skip_ws r') of
                    Failed e \<Rightarrow> Failed e
                  | Scanned v r'' \<Rightarrow>
                      (case skip_ws r'' of
                         [] \<Rightarrow> Failed DecodeError
                       | y # t \<Rightarrow>
                           if y = CHR ''}'' then Scanned [(k, v)] t
                           else if y = CHR '','' then
                             (case skip_ws t of
                                [] \<Rightarrow> Failed DecodeError
                              | q # t' \<Rightarrow>
                                  if q = CHR 0x22
                                  then scan_map ((#) (k, v)) (scan_members n (q # t'))
                                  else Failed DecodeError)
                           else Failed DecodeError))))"

text \<open>
  \<^verbatim>\<open>loads\<close>: skip leading whitespace, scan one value, and accept only whitespace behind it
  ("Extra data" otherwise).
\<close>

definition loads :: "string \<Rightarrow> failure + json" where
  "loads s =
     (case scan_value (Suc (length s)) (skip_ws s) of
        Failed e \<Rightarrow> Inl e
      | Scanned v r \<Rightarrow> if skip_ws r = [] then Inr v else Inl DecodeError)"

subsection \<open>Values that Python can hold, and the delimiters behind a value\<close>

text \<open>
  A Python dictionary holds every key once. An association list stands for a dictionary
  when its keys are distinct, here and in every dictionary nested in it.
\<close>

fun wf_json :: "json \<Rightarrow> bool"
  and wf_items :: "json list \<Rightarrow> bool"
  and wf_members :: "(string \<times> json) list \<Rightarrow> bool" where
  "wf_json (JArr xs) = wf_items xs"
| "wf_json (JObj kvs) = (distinct (map fst kvs) \<and> wf_members kvs)"
| "wf_json JNull = True"
| "wf_json (JBool b) = True"
| "wf_json (JInt i) = True"
| "wf_json (JStr s) = True"
| "wf_items [] = True"
| "wf_items (x # xs) = (wf_json x \<and> wf_items xs)"
| "wf_members [] = True"
| "wf_members ((k, v) # ps) = (wf_json v \<and> wf_members ps)"

text \<open>
  The characters a serialized value can start with, and the texts that can follow a
  value inside a serialized document: nothing, a comma, or a closing bracket or brace.
\<close>

definition vstart :: "char \<Rightarrow> bool" where
  "vstart c = (c \<in> set ''ntf-0123456789[{'' \<or> c = CHR 0x22)"

definition stops :: "string \<Rightarrow> bool" where
  "stops rest = (case rest of [] \<Rightarrow> True | c # _ \<Rightarrow> c \<in> {CHR '','', CHR '']'', CHR ''}''})"

section \<open>The request dispatcher (ratlib/api/http.py, call)\<close>

subsection \<open>The error classes\<close>

datatype error_class = APIError | BadResponseError | BadJSONError | UnsupportedMethodError | HTTPError

text \<open>The base class each error class is declared with; \<open>None\<close> is Python's \<^verbatim>\<open>Exception\<close>.\<close>

fun base :: "error_class \<Rightarrow> error_class option" where
  "base APIError = None"
| "base BadResponseError = Some APIError"
| "base BadJSONError = Some BadResponseError"
| "base UnsupportedMethodError = Some APIError"
| "base HTTPError = Some APIError"

text \<open>\<open>derives c b\<close>: class \<open>c\<close> is \<open>b\<close> or inherits from it (the hierarchy is two levels deep).\<close>

definition derives :: "error_class \<Rightarrow> error_class \<Rightarrow> bool" where
  "derives c b =
     (c = b \<or> (case base c of
                  None \<Rightarrow> False
                | Some p \<Rightarrow> p = b \<or> (case base p of None \<Rightarrow> False | Some q \<Rightarrow> q = b)))"

text \<open>
  An instance carries \<^verbatim>\<open>code\<close>, \<^verbatim>\<open>details\<close> and \<^verbatim>\<open>json\<close>; each is \<open>JNull\<close> (Python's \<^verbatim>\<open>None\<close>)
  unless the constructor was given it.
\<close>

record api_error =
  cls :: error_class
  code :: json
  details :: json
  json :: json

definition APIError_new :: "json \<Rightarrow> json \<Rightarrow> json \<Rightarrow> api_error" where
  "APIError_new c d j = \<lparr>cls = APIError, code = c, details = d, json = j\<rparr>"

definition BadResponseError_new :: "json \<Rightarrow> json \<Rightarrow> json \<Rightarrow> api_error" where
  "BadResponseError_new c d j = \<lparr>cls = BadResponseError, code = c, details = d, json = j\<rparr>"

definition BadJSONError_new :: api_error where
  "BadJSONError_new = \<lparr>cls = BadJSONError, code = JStr ''2608'',
     details = JStr ''API didn't return valid JSON.'', json = JNull\<rparr>"

definition UnsupportedMethodError_new :: api_error where
  "UnsupportedMethodError_new = \<lparr>cls = UnsupportedMethodError, code = JStr ''9999'',
     details = JStr ''Invalid request method.'', json = JNull\<rparr>"

definition HTTPError_new :: "json \<Rightarrow> json \<Rightarrow> api_error" where
  "HTTPError_new c d = \<lparr>cls = HTTPError, code = c, details = d, json = JNull\<rparr>"

text \<open>
  What can leave \<^verbatim>\<open>call\<close>: one of the module's errors, or a built-in exception that no
  handler of \<^verbatim>\<open>call\<close> catches. \<open>OutsideModel\<close> marks a request body that the embedding
  cannot read (see \<open>Unsupported\<close>); it says nothing about the program.
\<close>

datatype exn = Raised api_error
  | ValueError | TypeError | IndexError | KeyError | AttributeError
  | OutsideModel

fun typed :: "exn \<Rightarrow> bool" where
  "typed (Raised e) = derives (cls e) APIError"
| "typed _ = False"

subsection \<open>The transport (the \<^verbatim>\<open>requests\<close> library) and the clock\<close>

datatype transport_fn = requests_get | requests_put | requests_post | requests_request string

type_synonym headers = "(string \<times> string) list option"

record sent =
  func :: transport_fn
  target :: string
  payload :: json
  hdrs :: headers

text \<open>
  A response. \<open>resp_text\<close> is \<open>None\<close> when reading \<^verbatim>\<open>response.text\<close> raises; \<open>decode_json\<close> is
  the outcome of \<^verbatim>\<open>response.json()\<close>, \<open>None\<close> when it raises \<^verbatim>\<open>ValueError\<close>.
\<close>

record response =
  status_code :: int
  reason :: string
  url :: string
  resp_text :: "string option"
  decode_json :: "json option"

text \<open>
  A transport call returns a response or raises: \<^verbatim>\<open>requests.exceptions.HTTPError\<close> with its
  \<^verbatim>\<open>response\<close> attribute (possibly \<^verbatim>\<open>None\<close>) and its text, or another
  \<^verbatim>\<open>RequestException\<close> with its \<^verbatim>\<open>args\<close> (as texts) and its text.
\<close>

datatype outcome = Returns response
  | RaisesHTTPError "response option" string
  | RaisesRequestException "string list" string

text \<open>
  The surroundings of one call: the transport, the formatted time stamp taken before the
  dispatch, and the elapsed seconds as \<^verbatim>\<open>format\<close> prints them.
\<close>

record env =
  transport :: "sent \<Rightarrow> outcome"
  when_text :: string
  delta :: string

text \<open>
  \<^verbatim>\<open>Response.raise_for_status\<close> as the \<^verbatim>\<open>requests\<close> library defines it: it raises its
  \<^verbatim>\<open>HTTPError\<close> for the client errors 400 to 499 and the server errors 500 to 599, and
  returns for every other status code. The result is the text of the exception.
\<close>

definition raise_for_status :: "response \<Rightarrow> string option" where
  "raise_for_status r =
     (if 400 \<le> status_code r \<and> status_code r < 500
        then Some (str_int (status_code r) @ '' Client Error: '' @ reason r @ '' for url: '' @ url r)
      else if 500 \<le> status_code r \<and> status_code r < 600
        then Some (str_int (status_code r) @ '' Server Error: '' @ reason r @ '' for url: '' @ url r)
      else None)"

subsection \<open>The log sink\<close>

datatype sink_event = Write string | Flush

text \<open>
  \<^verbatim>\<open>print(s, file=log, flush=True)\<close> writes the text with the newline that ends it and
  flushes; without a sink \<^verbatim>\<open>logprint\<close> does nothing.
\<close>

definition logprint :: "bool \<Rightarrow> string \<Rightarrow> sink_event list" where
  "logprint log s = (if log then [Write (s @ [CHR 0x0A]), Flush] else [])"

definition upper :: "char \<Rightarrow> char" where
  "upper c = (case map_of (zip ''abcdefghijklmnopqrstuvwxyz'' ''ABCDEFGHIJKLMNOPQRSTUVWXYZ'') c
              of Some u \<Rightarrow> u | None \<Rightarrow> c)"

definition request_log :: "string \<Rightarrow> string \<Rightarrow> string \<Rightarrow> json \<Rightarrow> string" where
  "request_log w method uri d =
     ''['' @ w @ ''] '' @ map upper method @ '' '' @ uri @ [CHR 0x0A] @ dumps_pretty d @ [CHR 0x0A]"

definition response_log :: "string \<Rightarrow> response \<Rightarrow> string \<Rightarrow> string" where
  "response_log w r dt =
     ''['' @ w @ ''] status='' @ str_int (status_code r) @ '' in '' @ dt @ '' sec.'' @ [CHR 0x0A]
     @ (case resp_text r of Some body \<Rightarrow> body | None \<Rightarrow> ''(unable to decode body)'')
     @ [CHR 0x0A] @ replicate 10 CHR ''-''"

subsection \<open>The arguments and their normalization (lines 96 to 103)\<close>

datatype uri_arg = UriStr string | UriSeq "string list"

datatype data_arg = NoData | DictData "(string \<times> json) list" | TextData string

text \<open>
  A URI that is not a string goes to \<^verbatim>\<open>urljoin(uri)\<close> as its only part. An empty sequence is
  falsy and skipped, so the result is the empty string; any other sequence is yielded as
  it is, and \<^verbatim>\<open>"".join\<close> raises \<^verbatim>\<open>TypeError\<close> on an item that is not a string.
\<close>

definition normalize_uri :: "uri_arg \<Rightarrow> exn + string" where
  "normalize_uri uri =
     (case uri of
        UriStr s \<Rightarrow> Inr s
      | UriSeq parts \<Rightarrow> if parts = [] then Inr [] else Inl TypeError)"

text \<open>
  A dictionary is serialized; then \<^verbatim>\<open>data or '{}'\<close> is parsed: an absent body and the empty
  text both become \<^verbatim>\<open>'{}'\<close>.
\<close>

definition normalize_body :: "data_arg \<Rightarrow> exn + json" where
  "normalize_body data =
     (let s = (case data of
                 NoData \<Rightarrow> ''{}''
               | DictData m \<Rightarrow> dumps (JObj m)
               | TextData t \<Rightarrow> if t = [] then ''{}'' else t)
      in case loads s of
           Inr d \<Rightarrow> Inr d
         | Inl DecodeError \<Rightarrow> Inl ValueError
         | Inl Unsupported \<Rightarrow> Inl OutsideModel
         | Inl OutOfFuel \<Rightarrow> Inl OutsideModel)"

subsection \<open>Dispatch (lines 52 and 120 to 123)\<close>

definition request_methods :: "(string \<times> transport_fn) list" where
  "request_methods = [(''GET'', requests_get), (''PUT'', requests_put), (''POST'', requests_post)]"

definition dispatch :: "string \<Rightarrow> string \<Rightarrow> json \<Rightarrow> headers \<Rightarrow> sent" where
  "dispatch method uri d h =
     (case map_of request_methods method of
        Some f \<Rightarrow> \<lparr>func = f, target = uri, payload = d, hdrs = h\<rparr>
      | None \<Rightarrow> \<lparr>func = requests_request (map upper method), target = uri, payload = d, hdrs = h\<rparr>)"

subsection \<open>The status policy (lines 124 to 130)\<close>

text \<open>
  \<^verbatim>\<open>not statuses\<close> holds for \<^verbatim>\<open>None\<close> and for an empty set alike. The library's
  \<^verbatim>\<open>HTTPError\<close> is caught at once and raised again as the module's own, with the status
  code of the response.
\<close>

definition check_status :: "int set option \<Rightarrow> response \<Rightarrow> exn option" where
  "check_status statuses r =
     (if statuses = None \<or> statuses = Some {} then
        (if status_code r \<noteq> 400 then
           (case raise_for_status r of
              Some msg \<Rightarrow> Some (Raised (HTTPError_new (JInt (status_code r)) (JStr msg)))
            | None \<Rightarrow> None)
         else None)
      else if status_code r \<notin> the statuses then
        Some (Raised (HTTPError_new (JInt (status_code r))
                       (JStr (''Unexpected Status Code '' @ str_int (status_code r)))))
      else None)"

subsection \<open>Reading the response (lines 149 to 160)\<close>

fun infix_of :: "string \<Rightarrow> string \<Rightarrow> bool" where
  "infix_of p [] = (p = [])"
| "infix_of p (c # cs) = (take (length p) (c # cs) = p \<or> infix_of p cs)"

text \<open>\<^verbatim>\<open>key in x\<close> for a string \<^verbatim>\<open>key\<close>.\<close>

fun py_in :: "string \<Rightarrow> json \<Rightarrow> exn + bool" where
  "py_in k (JObj kvs) = Inr (k \<in> fst ` set kvs)"
| "py_in k (JArr xs) = Inr (JStr k \<in> set xs)"
| "py_in k (JStr s) = Inr (infix_of k s)"
| "py_in k _ = Inl TypeError"

text \<open>\<^verbatim>\<open>x[key]\<close> for a string \<^verbatim>\<open>key\<close>.\<close>

fun getitem :: "json \<Rightarrow> string \<Rightarrow> exn + json" where
  "getitem (JObj kvs) k = (case map_of kvs k of Some v \<Rightarrow> Inr v | None \<Rightarrow> Inl KeyError)"
| "getitem _ k = Inl TypeError"

text \<open>\<^verbatim>\<open>x[0]\<close>.\<close>

fun first :: "json \<Rightarrow> exn + json" where
  "first (JArr []) = Inl IndexError"
| "first (JArr (x # xs)) = Inr x"
| "first (JStr []) = Inl IndexError"
| "first (JStr (c # cs)) = Inr (JStr [c])"
| "first (JObj kvs) = Inl KeyError"
| "first _ = Inl TypeError"

text \<open>\<^verbatim>\<open>x.get(key)\<close>: only a dictionary has the method.\<close>

fun py_get :: "json \<Rightarrow> string \<Rightarrow> exn + json" where
  "py_get (JObj kvs) k = (case map_of kvs k of Some v \<Rightarrow> Inr v | None \<Rightarrow> Inr JNull)"
| "py_get _ k = Inl AttributeError"

definition raise_api_error :: "json \<Rightarrow> exn" where
  "raise_api_error result =
     (case getitem result ''errors'' of
        Inl e \<Rightarrow> e
      | Inr errors \<Rightarrow>
          (case first errors of
             Inl e \<Rightarrow> e
           | Inr err \<Rightarrow>
               (case py_get err ''name'' of
                  Inl e \<Rightarrow> e
                | Inr name \<Rightarrow>
                    (case py_get err ''message'' of
                       Inl e \<Rightarrow> e
                     | Inr message \<Rightarrow> Raised (APIError_new name message result)))))"

definition classify :: "response \<Rightarrow> exn + json" where
  "classify r =
     (case decode_json r of
        None \<Rightarrow> Inl (Raised BadJSONError_new)
      | Some result \<Rightarrow>
          (case py_in ''errors'' result of
             Inl e \<Rightarrow> Inl e
           | Inr True \<Rightarrow> Inl (raise_api_error result)
           | Inr False \<Rightarrow>
               (case py_in ''data'' result of
                  Inl e \<Rightarrow> Inl e
                | Inr False \<Rightarrow>
                    Inl (Raised (BadResponseError_new JNull
                      (JStr ''Did not receive a data field in a non-error response.'') result))
                | Inr True \<Rightarrow> Inr result)))"

subsection \<open>\<^verbatim>\<open>call\<close>\<close>

text \<open>
  The result is what was written to the sink, in order, and what \<^verbatim>\<open>call\<close> returned or raised.
  The arguments are normalized before anything is logged. The request is logged, then
  dispatched. When the transport raises, the local \<^verbatim>\<open>response\<close> is still \<^verbatim>\<open>None\<close> and the
  \<^verbatim>\<open>finally\<close> block logs nothing; a \<^verbatim>\<open>RequestException\<close> has its first argument (or, without
  one, its text) logged by its handler. When the transport returns, the \<^verbatim>\<open>finally\<close> block
  logs the response, whether the status policy raised or not.
\<close>

definition call ::
  "env \<Rightarrow> string \<Rightarrow> uri_arg \<Rightarrow> data_arg \<Rightarrow> int set option \<Rightarrow> bool \<Rightarrow> headers
     \<Rightarrow> sink_event list \<times> (exn + json)" where
  "call e method uri data statuses log h =
     (case normalize_uri uri of
        Inl x \<Rightarrow> ([], Inl x)
      | Inr u \<Rightarrow>
     (case normalize_body data of
        Inl x \<Rightarrow> ([], Inl x)
      | Inr d \<Rightarrow>
          (let l1 = logprint log (request_log (when_text e) method u d)
           in case transport e (dispatch method u d h) of
                RaisesHTTPError None msg \<Rightarrow> (l1, Inl AttributeError)
              | RaisesHTTPError (Some r) msg \<Rightarrow>
                  (l1, Inl (Raised (HTTPError_new (JInt (status_code r)) (JStr msg))))
              | RaisesRequestException args msg \<Rightarrow>
                  (l1 @ logprint log (case args of [] \<Rightarrow> msg | a # _ \<Rightarrow> a),
                   Inl (Raised (BadResponseError_new JNull JNull JNull)))
              | Returns r \<Rightarrow>
                  (let l2 = l1 @ logprint log (response_log (when_text e) r (delta e))
                   in case check_status statuses r of
                        Some x \<Rightarrow> (l2, Inl x)
                      | None \<Rightarrow> (l2, classify r)))))"

subsection \<open>What makes a failure typed\<close>

text \<open>
  The decoded body of a response is handled without a built-in exception when the tests
  \<^verbatim>\<open>'errors' in result\<close> and \<^verbatim>\<open>'data' not in result\<close> are defined for it and, if it carries
  \<^verbatim>\<open>errors\<close>, \<^verbatim>\<open>result['errors'][0]\<close> is a dictionary: an object whose \<^verbatim>\<open>errors\<close> entry, when
  present, is a non-empty array that starts with an object; or an array or a string in
  which \<^verbatim>\<open>errors\<close> does not occur.
\<close>

fun envelope_ok :: "json \<Rightarrow> bool" where
  "envelope_ok (JObj kvs) =
     (case map_of kvs ''errors'' of
        None \<Rightarrow> True
      | Some (JArr (JObj err # others)) \<Rightarrow> True
      | Some _ \<Rightarrow> False)"
| "envelope_ok (JArr xs) = (JStr ''errors'' \<notin> set xs)"
| "envelope_ok (JStr s) = (\<not> infix_of ''errors'' s)"
| "envelope_ok _ = False"

text \<open>
  A transport outcome is handled without a built-in exception when an HTTP-status failure
  of the transport carries its response and a returned response decodes (if at all) to
  such a body.
\<close>

fun outcome_ok :: "outcome \<Rightarrow> bool" where
  "outcome_ok (Returns r) = (case decode_json r of None \<Rightarrow> True | Some result \<Rightarrow> envelope_ok result)"
| "outcome_ok (RaisesHTTPError None msg) = False"
| "outcome_ok (RaisesHTTPError (Some r) msg) = True"
| "outcome_ok (RaisesRequestException args msg) = True"

subsection \<open>A mock transport\<close>

definition mock_response :: "int \<Rightarrow> string \<Rightarrow> json option \<Rightarrow> response" where
  "mock_response s why j =
     \<lparr>status_code = s, reason = why, url = ''http://x/y'',
      resp_text = Some (case j of Some v \<Rightarrow> dumps v | None \<Rightarrow> ''<html>''),
      decode_json = j\<rparr>"

definition mock_env :: "outcome \<Rightarrow> env" where
  "mock_env out = \<lparr>transport = (\<lambda>request. out), when_text = ''2016-03-01 12:00:00.000000'',
                    delta = ''0.25''\<rparr>"

text \<open>The body \<^verbatim>\<open>{"errors": [{"name": "E1", "message": "missing"}]}\<close>.\<close>

definition e1_body :: json where
  "e1_body = JObj [(''errors'', JArr [JObj [(''name'', JStr ''E1''), (''message'', JStr ''missing'')]])]"

text \<open>The body \<^verbatim>\<open>{"data": {}}\<close>.\<close>

definition data_body :: json where
  "data_body = JObj [(''data'', JObj [])]"

section \<open>Properties of the URL joiner\<close>

text \<open>
  Claim C9: \<^verbatim>\<open>urljoin()\<close> is the empty string, and the five listed joins of \<^verbatim>\<open>a\<close> and \<^verbatim>\<open>b\<close>
  (with a slash on either side, on both, on none, and with an empty segment between)
  all give \<^verbatim>\<open>a/b\<close>.
\<close>

theorem urljoin_examples:
  "urljoin [] = [] \<and>
   urljoin [''a'', ''b''] = ''a/b'' \<and>
   urljoin [''a/'', ''b''] = ''a/b'' \<and>
   urljoin [''a/'', ''/b''] = ''a/b'' \<and>
   urljoin [''a'', ''/b''] = ''a/b'' \<and>
   urljoin [''a'', [], ''b''] = ''a/b''"
  by (simp add: urljoin_def)

text \<open>
  Claim C2: every pair of adjacent non-empty segments is separated by exactly one slash.
  The generator forgets that there was a previous piece when the piece it yielded last is
  empty, which happens when a lone \<^verbatim>\<open>/\<close> follows a segment that ends in a slash: the next
  segment is then emitted unchecked, and a second slash goes through. The contract gives
  \<^verbatim>\<open>a/b\<close> on these segments, the code \<^verbatim>\<open>a//b\<close>.
\<close>

theorem urljoin_lone_slash:
  "urljoin [''a/'', ''/'', ''/b''] = ''a//b'' \<and> urljoin_spec [''a/'', ''/'', ''/b''] = ''a/b''"
  by (simp add: urljoin_def urljoin_spec_def join_one_def)

section \<open>Idempotence of the output filter\<close>

lemma clean_fix: "clean r s \<Longrightarrow> re_sub r s = s"
  by (induction s) simp_all

lemma clean_drop: "clean r s \<Longrightarrow> clean r (drop n s)"
proof (induction s arbitrary: n)
  case Nil
  then show ?case by simp
next
  case (Cons c cs)
  then show ?case by (cases n) simp_all
qed

lemma clean_append: "clean r (xs @ ys) \<Longrightarrow> clean r ys"
  using clean_drop [of r "xs @ ys" "length xs"] by simp

lemma re_sub_verbatim:
  assumes first: "\<And>m. match_at r m \<Longrightarrow> \<exists>x xs. expand r (take (width r) m) = x # xs \<and> lower x = f"
  shows "(\<forall>c \<in> set (take n (re_sub r s)). lower c \<noteq> f) \<Longrightarrow> take n (re_sub r s) = take n s"
proof (induction n arbitrary: s)
  case 0
  then show ?case by simp
next
  case (Suc n)
  show ?case
  proof (cases s)
    case Nil
    then show ?thesis by simp
  next
    case (Cons c cs)
    show ?thesis
    proof (cases "match_at r (c # cs)")
      case True
      from first [OF True] obtain x xs where
        "expand r (take (width r) (c # cs)) = x # xs" "lower x = f" by blast
      with True Cons Suc.prems show ?thesis by simp
    next
      case False
      with Cons Suc.prems have "\<forall>c \<in> set (take n (re_sub r cs)). lower c \<noteq> f" by simp
      from Suc.IH [OF this] False Cons show ?thesis by simp
    qed
  qed
qed

lemma ratsignalD:
  assumes "match_at ratsignal s"
  shows "\<exists>m0 m1 m2 m3 m4 m5 m6 m7 m8. take 9 s = [m0, m1, m2, m3, m4, m5, m6, m7, m8] \<and>
     lower m0 = CHR ''r'' \<and> lower m1 = CHR ''a'' \<and> lower m2 = CHR ''t'' \<and> lower m3 = CHR ''s'' \<and>
     lower m4 = CHR ''i'' \<and> lower m5 = CHR ''g'' \<and> lower m6 = CHR ''n'' \<and> lower m7 = CHR ''a'' \<and>
     lower m8 = CHR ''l''"
  using assms by (auto simp: match_at_def ratsignal_def map_eq_Cons_conv)

lemma coderedD:
  assumes "match_at codered s"
  shows "\<exists>m0 m1 m2 m3 m4 m5 m6 m7. take 8 s = [m0, m1, m2, m3, m4, m5, m6, m7] \<and>
     lower m0 = CHR ''c'' \<and> lower m1 \<in> {CHR ''o'', CHR ''a''} \<and> lower m2 \<in> {CHR ''d'', CHR ''s''} \<and>
     lower m3 = CHR ''e'' \<and> lower m4 = CHR '' '' \<and> lower m5 = CHR ''r'' \<and> lower m6 = CHR ''e'' \<and>
     lower m7 = CHR ''d''"
  using assms by (auto simp: match_at_def codered_def map_eq_Cons_conv)


lemma ratsignal_first:
  "match_at ratsignal m \<Longrightarrow>
     \<exists>x xs. expand ratsignal (take (width ratsignal) m) = x # xs \<and> lower x = CHR ''r''"
proof -
  assume "match_at ratsignal m"
  from ratsignalD [OF this] obtain m0 m1 m2 m3 m4 m5 m6 m7 m8 where
    m: "take 9 m = [m0, m1, m2, m3, m4, m5, m6, m7, m8]" and l: "lower m0 = CHR ''r''"
    by blast
  have w: "width ratsignal = 9" by (simp add: ratsignal_def)
  have "expand ratsignal [m0, m1, m2, m3, m4, m5, m6, m7, m8] = m0 # CHR ''@'' # [m3, m4, m5, m6, m7, m8]"
    by (simp add: ratsignal_def)
  with m l w show ?thesis by (simp only:) blast
qed

lemma codered_first:
  "match_at codered m \<Longrightarrow>
     \<exists>x xs. expand codered (take (width codered) m) = x # xs \<and> lower x = CHR ''c''"
proof -
  assume "match_at codered m"
  from coderedD [OF this] obtain m0 m1 m2 m3 m4 m5 m6 m7 where
    m: "take 8 m = [m0, m1, m2, m3, m4, m5, m6, m7]" and l: "lower m0 = CHR ''c''"
    by blast
  have w: "width codered = 8" by (simp add: codered_def)
  have "expand codered [m0, m1, m2, m3, m4, m5, m6, m7] = m0 # [m1, m2, CHR ''3'', CHR '' '', m5, CHR ''3'', m7]"
    by (simp add: codered_def)
  with m l w show ?thesis by (simp only:) blast
qed

lemma clean_ratsignal_skip:
  "lower x \<noteq> CHR ''r'' \<Longrightarrow> clean ratsignal (x # s) = clean ratsignal s"
  by (simp add: match_at_def ratsignal_def)

lemma clean_ratsignal_skip2:
  "lower y \<noteq> CHR ''a'' \<Longrightarrow> clean ratsignal (x # y # s) = clean ratsignal (y # s)"
  by (simp add: match_at_def ratsignal_def)

lemma clean_codered_skip:
  "lower x \<noteq> CHR ''c'' \<Longrightarrow> clean codered (x # s) = clean codered s"
  by (auto simp: match_at_def codered_def)

lemma clean_codered_skip4:
  "lower y \<noteq> CHR ''e'' \<Longrightarrow> clean codered (x # a # b # y # s) = clean codered (a # b # y # s)"
  by (auto simp: match_at_def codered_def)

lemma lower_consts [simp]:
  "lower CHR ''@'' = CHR ''@''" "lower CHR ''3'' = CHR ''3''" "lower CHR '' '' = CHR '' ''"
  by (simp_all add: lower_def)



lemma map_in_set: "map f xs = ys \<Longrightarrow> x \<in> set xs \<Longrightarrow> f x \<in> set ys"
  by auto


lemma ratsignal_tail:
  assumes "match_at ratsignal (c # X)" and "x \<in> set (take 8 X)"
  shows "lower x \<noteq> CHR ''r''" and "lower x \<noteq> CHR ''c''"
proof -
  from assms(1) have "map lower (take 8 X) = ''atsignal''"
    by (simp add: match_at_def ratsignal_def)
  from map_in_set [OF this assms(2)] show "lower x \<noteq> CHR ''r''" and "lower x \<noteq> CHR ''c''"
    by auto
qed

lemma ratsignal_transfer:
  "match_at ratsignal (c # Y) \<Longrightarrow> take 8 Y = take 8 cs \<Longrightarrow> match_at ratsignal (c # cs)"
  by (simp add: match_at_def ratsignal_def)

lemma codered_tail:
  assumes "match_at codered (c # X)" and "x \<in> set (take 7 X)"
  shows "lower x \<noteq> CHR ''c''"
proof -
  from assms(1) have "map lower (take 7 X) = ''ode red'' \<or> map lower (take 7 X) = ''ase red''"
    by (auto simp add: match_at_def codered_def)
  with assms(2) show ?thesis
    by (auto dest!: map_in_set [where x = x])
qed

lemma codered_transfer:
  "match_at codered (c # Y) \<Longrightarrow> take 7 Y = take 7 cs \<Longrightarrow> match_at codered (c # cs)"
  by (simp add: match_at_def codered_def)

lemma ratsignal_clean: "clean ratsignal (re_sub ratsignal s)"
proof (induction ratsignal s rule: re_sub.induct)
  case 1
  show ?case by simp
next
  case (2 c cs)
  show ?case
  proof (cases "match_at ratsignal (c # cs)")
    case True
    from ratsignalD [OF True] obtain m0 m1 m2 m3 m4 m5 m6 m7 m8 where
      m: "take 9 (c # cs) = [m0, m1, m2, m3, m4, m5, m6, m7, m8]"
      and l: "lower m0 = CHR ''r''" "lower m3 = CHR ''s''" "lower m4 = CHR ''i''"
        "lower m5 = CHR ''g''" "lower m6 = CHR ''n''" "lower m7 = CHR ''a''" "lower m8 = CHR ''l''"
      by blast
    have w: "width ratsignal = 9" by (simp add: ratsignal_def)
    have e: "expand ratsignal (take 9 (c # cs)) = [m0, CHR ''@'', m3, m4, m5, m6, m7, m8]"
      by (simp only: m) (simp add: ratsignal_def)
    have "clean ratsignal (re_sub ratsignal (drop (width ratsignal - 1) cs))"
      using "2.hyps"(1) [OF True] .
    then have "clean ratsignal ([m0, CHR ''@'', m3, m4, m5, m6, m7, m8]
                                 @ re_sub ratsignal (drop (width ratsignal - 1) cs))"
      using l by (simp del: clean.simps add: clean_ratsignal_skip clean_ratsignal_skip2)
    with True e w show ?thesis by simp
  next
    case False
    have ih: "clean ratsignal (re_sub ratsignal cs)" using "2.hyps"(2) [OF False] .
    have "\<not> match_at ratsignal (c # re_sub ratsignal cs)"
    proof
      assume a: "match_at ratsignal (c # re_sub ratsignal cs)"
      have "\<forall>x \<in> set (take 8 (re_sub ratsignal cs)). lower x \<noteq> CHR ''r''"
        using ratsignal_tail(1) [OF a] by blast
      then have "take 8 (re_sub ratsignal cs) = take 8 cs"
        using re_sub_verbatim [of ratsignal "CHR ''r''" 8 cs] ratsignal_first by blast
      with a have "match_at ratsignal (c # cs)"
        by (rule ratsignal_transfer)
      with False show False ..
    qed
    with ih False show ?thesis by simp
  qed
qed

lemma codered_clean: "clean codered (re_sub codered s)"
proof (induction codered s rule: re_sub.induct)
  case 1
  show ?case by simp
next
  case (2 c cs)
  show ?case
  proof (cases "match_at codered (c # cs)")
    case True
    from coderedD [OF True] obtain m0 m1 m2 m3 m4 m5 m6 m7 where
      m: "take 8 (c # cs) = [m0, m1, m2, m3, m4, m5, m6, m7]"
      and l: "lower m0 = CHR ''c''" "lower m1 \<in> {CHR ''o'', CHR ''a''}"
        "lower m2 \<in> {CHR ''d'', CHR ''s''}" "lower m5 = CHR ''r''" "lower m7 = CHR ''d''"
      by blast
    have w: "width codered = 8" by (simp add: codered_def)
    have e: "expand codered (take 8 (c # cs)) = [m0, m1, m2, CHR ''3'', CHR '' '', m5, CHR ''3'', m7]"
      by (simp only: m) (simp add: codered_def)
    have "clean codered (re_sub codered (drop (width codered - 1) cs))"
      using "2.hyps"(1) [OF True] .
    moreover have n: "lower m1 \<noteq> CHR ''c''" "lower m2 \<noteq> CHR ''c''"
      "lower m5 \<noteq> CHR ''c''" "lower m7 \<noteq> CHR ''c''"
      using l by auto
    ultimately have "clean codered ([m0, m1, m2, CHR ''3'', CHR '' '', m5, CHR ''3'', m7]
                                 @ re_sub codered (drop (width codered - 1) cs))"
      by (simp del: clean.simps add: clean_codered_skip clean_codered_skip4)
    with True e w show ?thesis by simp
  next
    case False
    have ih: "clean codered (re_sub codered cs)" using "2.hyps"(2) [OF False] .
    have "\<not> match_at codered (c # re_sub codered cs)"
    proof
      assume a: "match_at codered (c # re_sub codered cs)"
      have "\<forall>x \<in> set (take 7 (re_sub codered cs)). lower x \<noteq> CHR ''c''"
        using codered_tail [OF a] by blast
      then have "take 7 (re_sub codered cs) = take 7 cs"
        using re_sub_verbatim [of codered "CHR ''c''" 7 cs] codered_first by blast
      with a have "match_at codered (c # cs)"
        by (rule codered_transfer)
      with False show False ..
    qed
    with ih False show ?thesis by simp
  qed
qed

lemma codered_keeps_ratsignal_clean:
  "clean ratsignal s \<Longrightarrow> clean ratsignal (re_sub codered s)"
proof (induction codered s rule: re_sub.induct)
  case 1
  show ?case by simp
next
  case (2 c cs)
  show ?case
  proof (cases "match_at codered (c # cs)")
    case True
    from coderedD [OF True] obtain m0 m1 m2 m3 m4 m5 m6 m7 where
      m: "take 8 (c # cs) = [m0, m1, m2, m3, m4, m5, m6, m7]"
      and l: "lower m0 = CHR ''c''" "lower m1 \<in> {CHR ''o'', CHR ''a''}"
        "lower m2 \<in> {CHR ''d'', CHR ''s''}" "lower m5 = CHR ''r''" "lower m7 = CHR ''d''"
      by blast
    have w: "width codered = 8" by (simp add: codered_def)
    have e: "expand codered (take 8 (c # cs)) = [m0, m1, m2, CHR ''3'', CHR '' '', m5, CHR ''3'', m7]"
      by (simp only: m) (simp add: codered_def)
    have "clean ratsignal (drop (width codered - 1) cs)"
      using "2.prems" clean_drop [of ratsignal "c # cs" "Suc (width codered - 1)"] by simp
    then have "clean ratsignal (re_sub codered (drop (width codered - 1) cs))"
      using "2.hyps"(1) [OF True] by simp
    moreover have n: "lower m0 \<noteq> CHR ''r''" "lower m1 \<noteq> CHR ''r''"
      "lower m2 \<noteq> CHR ''r''" "lower m7 \<noteq> CHR ''r''"
      using l by auto
    ultimately have "clean ratsignal ([m0, m1, m2, CHR ''3'', CHR '' '', m5, CHR ''3'', m7]
                                 @ re_sub codered (drop (width codered - 1) cs))"
      by (simp del: clean.simps add: clean_ratsignal_skip clean_ratsignal_skip2)
    with True e w show ?thesis by simp
  next
    case False
    have ih: "clean ratsignal (re_sub codered cs)"
      using "2.hyps"(2) [OF False] "2.prems" by simp
    have "\<not> match_at ratsignal (c # re_sub codered cs)"
    proof
      assume a: "match_at ratsignal (c # re_sub codered cs)"
      have "\<forall>x \<in> set (take 8 (re_sub codered cs)). lower x \<noteq> CHR ''c''"
        using ratsignal_tail(2) [OF a] by blast
      then have "take 8 (re_sub codered cs) = take 8 cs"
        using re_sub_verbatim [of codered "CHR ''c''" 8 cs] codered_first by blast
      with a have "match_at ratsignal (c # cs)"
        by (rule ratsignal_transfer)
      with "2.prems" show False by simp
    qed
    with ih False show ?thesis by simp
  qed
qed

text \<open>
  Claim C10: for every message, \<^verbatim>\<open>transform\<close> is idempotent. After the first pass no position
  of the text matches either pattern any more (the templates put \<^verbatim>\<open>@\<close> and \<^verbatim>\<open>3\<close> where the
  patterns want letters), so a second pass copies the text unchanged.
\<close>

theorem transform_idempotent: "transform (transform m) = transform m"
proof -
  let ?y = "re_sub codered (re_sub ratsignal m)"
  have t: "\<And>x. transform x = re_sub codered (re_sub ratsignal x)"
    by (simp add: transform_def replacements_def)
  have "clean ratsignal ?y"
    by (rule codered_keeps_ratsignal_clean [OF ratsignal_clean])
  then have "re_sub ratsignal ?y = ?y" by (rule clean_fix)
  moreover have "re_sub codered ?y = ?y" by (rule clean_fix [OF codered_clean])
  ultimately show ?thesis by (simp add: t)
qed

section \<open>Serializing and parsing back\<close>

lemma hexval_hexd: "n < 16 \<Longrightarrow> hexval (hexd n) = Some n"
proof -
  assume "n < 16"
  then have "n \<in> set [0..<16]" by simp
  moreover have "\<forall>k \<in> set [0..<16]. hexval (hexd k) = Some k" by code_simp
  ultimately show ?thesis by blast
qed

lemma hex4_hex4_digits:
  assumes "n < 256"
  shows "hex4 (hex4_digits n) = Some n"
proof -
  have a: "n div 4096 = 0" "n div 256 = 0" using assms by simp_all
  have "n div 16 < 16" using assms by (simp add: less_mult_imp_div_less)
  then have b: "n div 16 mod 16 = n div 16" by simp
  have "n div 16 * 16 + n mod 16 = n" by simp
  then show ?thesis
    using \<open>n div 16 < 16\<close> by (simp add: hex4_digits_def hexval_hexd a b)
qed

lemma take4_hex4_digits: "take 4 (hex4_digits n @ X) = hex4_digits n"
  and drop4_hex4_digits: "drop 4 (hex4_digits n @ X) = X"
  by (simp_all add: hex4_digits_def)

lemma scanstring_escape1:
  "scanstring (escape c @ X) = scan_map ((#) c) (scanstring X)"
proof (cases "c \<in> {CHR 0x22, CHR 0x5C, CHR 0x08, CHR 0x0C, CHR 0x0A, CHR 0x0D, CHR 0x09}")
  case True
  then show ?thesis by (auto simp: escape_def unescape_def)
next
  case False
  show ?thesis
  proof (cases "0x20 \<le> (of_char c :: nat) \<and> (of_char c :: nat) \<le> 0x7E")
    case True
    with False have "escape c = [c]" by (simp add: escape_def)
    with False True show ?thesis by simp
  next
    case plain: False
    with False have e: "escape c = CHR 0x5C # CHR ''u'' # hex4_digits (of_char c)"
      by (simp add: escape_def)
    from hex4_hex4_digits [OF nat_of_char_less_256] show ?thesis
      by (simp add: e take4_hex4_digits drop4_hex4_digits del: take_append drop_append)
  qed
qed

lemma scanstring_escaped:
  "scanstring (concat (map escape s) @ CHR 0x22 # rest) = Scanned s rest"
  by (induction s) (simp_all add: scanstring_escape1)

lemma scanstring_dumps_str:
  "scanstring (tl (dumps_str s) @ rest) = Scanned s rest"
  by (simp add: dumps_str_def scanstring_escaped)


lemma hexd_digit:
  assumes "n < 10"
  shows "is_digit (hexd n)" and "digit_val (hexd n) = n" and "hexd n \<noteq> CHR ''-''"
    and "(hexd n = CHR ''0'') = (n = 0)"
proof -
  have "\<forall>k \<in> set [0..<10]. is_digit (hexd k) \<and> digit_val (hexd k) = k \<and> hexd k \<noteq> CHR ''-''
          \<and> ((hexd k = CHR ''0'') = (k = 0))"
    by code_simp
  moreover from assms have "n \<in> set [0..<10]" by simp
  ultimately have "is_digit (hexd n) \<and> digit_val (hexd n) = n \<and> hexd n \<noteq> CHR ''-''
          \<and> ((hexd n = CHR ''0'') = (n = 0))" by blast
  then show "is_digit (hexd n)" and "digit_val (hexd n) = n" and "hexd n \<noteq> CHR ''-''"
    and "(hexd n = CHR ''0'') = (n = 0)" by simp_all
qed

lemma digits_nonempty: "digits n \<noteq> []"
  by (subst digits.simps) simp

lemma digits_all: "c \<in> set (digits n) \<Longrightarrow> is_digit c"
proof (induction n rule: digits.induct)
  case (1 n)
  show ?case
  proof (cases "n < 10")
    case True
    with "1.prems" show ?thesis by (subst (asm) digits.simps) (simp add: hexd_digit)
  next
    case False
    with "1.prems" "1.IH" show ?thesis
      by (subst (asm) digits.simps) (auto simp: hexd_digit)
  qed
qed

lemma digits_hd: "0 < n \<Longrightarrow> hd (digits n) \<noteq> CHR ''0''"
proof (induction n rule: digits.induct)
  case (1 n)
  show ?case
  proof (cases "n < 10")
    case True
    with "1.prems" show ?thesis by (subst digits.simps) (simp add: hexd_digit)
  next
    case False
    then have "0 < n div 10" by simp
    with False "1.IH" show ?thesis
      by (subst digits.simps) (simp add: digits_nonempty)
  qed
qed

lemma nat_of_digits_snoc: "nat_of_digits (ds @ [c]) = 10 * nat_of_digits ds + digit_val c"
  by (simp add: nat_of_digits_def)

lemma nat_of_digits_digits: "nat_of_digits (digits n) = n"
proof (induction n rule: digits.induct)
  case (1 n)
  show ?case
  proof (cases "n < 10")
    case True
    then show ?thesis by (subst digits.simps) (simp add: nat_of_digits_def hexd_digit)
  next
    case False
    with "1.IH" show ?thesis
      by (subst digits.simps) (simp add: nat_of_digits_snoc hexd_digit)
  qed
qed

lemma stops_not_digit: "stops rest \<Longrightarrow> rest = [] \<or> \<not> is_digit (hd rest)"
  by (auto simp: stops_def is_digit_def split: list.splits)

lemma stops_not_float: "stops rest \<Longrightarrow> \<not> float_tail rest"
  by (cases rest rule: float_tail.cases) (auto simp: stops_def)

lemma takeWhile_digits:
  assumes "\<And>c. c \<in> set ds \<Longrightarrow> is_digit c" and "rest = [] \<or> \<not> is_digit (hd rest)"
  shows "takeWhile is_digit (ds @ rest) = ds" and "dropWhile is_digit (ds @ rest) = rest"
  using assms by (cases rest; simp add: takeWhile_append2 dropWhile_append2)+

lemma scan_number_literal:
  assumes c: "is_digit c" and ds: "\<And>x. x \<in> set ds \<Longrightarrow> is_digit x"
    and z: "c = CHR ''0'' \<Longrightarrow> ds = []" and st: "stops rest"
  shows "scan_number (c # ds @ rest) = Scanned (JInt (int (nat_of_digits (c # ds)))) rest"
    and "scan_number (CHR ''-'' # c # ds @ rest) = Scanned (JInt (- int (nat_of_digits (c # ds)))) rest"
proof -
  have nm: "c \<noteq> CHR ''-''" using c by (auto simp: is_digit_def)
  note t = takeWhile_digits [OF ds stops_not_digit [OF st]]
  note f = stops_not_float [OF st]
  show "scan_number (c # ds @ rest) = Scanned (JInt (int (nat_of_digits (c # ds)))) rest"
    using c nm z t f by (cases "c = CHR ''0''") (simp_all add: scan_number_def)
  show "scan_number (CHR ''-'' # c # ds @ rest) = Scanned (JInt (- int (nat_of_digits (c # ds)))) rest"
    using c nm z t f by (cases "c = CHR ''0''") (simp_all add: scan_number_def)
qed

lemma digits_shape:
  "\<exists>c ds. digits n = c # ds \<and> is_digit c \<and> (\<forall>x \<in> set ds. is_digit x) \<and> (c = CHR ''0'' \<longrightarrow> ds = [])"
proof -
  obtain c ds where d: "digits n = c # ds" using digits_nonempty by (cases "digits n") auto
  have all: "\<And>x. x \<in> set (c # ds) \<Longrightarrow> is_digit x" using digits_all [of _ n] d by simp
  have "ds = []" if "c = CHR ''0''"
  proof (cases "n = 0")
    case True
    then have "digits n = ''0''" by (subst digits.simps) (simp add: hexd_def)
    with d show ?thesis by simp
  next
    case False
    then have "hd (digits n) \<noteq> CHR ''0''" using digits_hd [of n] by simp
    with d that show ?thesis by simp
  qed
  with d all show ?thesis by simp
qed

lemma scan_number_nat:
  assumes "stops rest"
  shows "scan_number (digits n @ rest) = Scanned (JInt (int n)) rest"
    and "scan_number (CHR ''-'' # digits n @ rest) = Scanned (JInt (- int n)) rest"
proof -
  from digits_shape [of n] obtain c ds where d: "digits n = c # ds" and c: "is_digit c"
    and ds: "\<And>x. x \<in> set ds \<Longrightarrow> is_digit x" and z: "c = CHR ''0'' \<Longrightarrow> ds = []"
    by blast
  have v: "nat_of_digits (c # ds) = n" using nat_of_digits_digits [of n] d by simp
  from scan_number_literal(1) [OF c ds z assms] v
  show "scan_number (digits n @ rest) = Scanned (JInt (int n)) rest" by (simp add: d)
  from scan_number_literal(2) [OF c ds z assms] v
  show "scan_number (CHR ''-'' # digits n @ rest) = Scanned (JInt (- int n)) rest" by (simp add: d)
qed

lemma scan_number_str_int:
  assumes "stops rest"
  shows "scan_number (str_int i @ rest) = Scanned (JInt i) rest"
  using scan_number_nat [OF assms, of "nat i"] scan_number_nat [OF assms, of "nat (- i)"]
  by (cases "i < 0") (simp_all add: str_int_def)

lemma skip_ws_simps [simp]:
  "skip_ws [] = []"
  "skip_ws (CHR '' '' # r) = skip_ws r"
  "vstart c \<Longrightarrow> skip_ws (c # r) = c # r"
  "skip_ws (CHR '','' # r) = CHR '','' # r"
  "skip_ws (CHR '']'' # r) = CHR '']'' # r"
  "skip_ws (CHR ''}'' # r) = CHR ''}'' # r"
  "skip_ws (CHR '':'' # r) = CHR '':'' # r"
  by (auto simp: skip_ws_def vstart_def)

lemma setitem_fresh: "k \<notin> fst ` set d \<Longrightarrow> setitem k v d = d @ [(k, v)]"
  by (induction d) auto

lemma foldl_setitem:
  "distinct (map fst kvs) \<Longrightarrow> fst ` set d \<inter> fst ` set kvs = {} \<Longrightarrow>
     foldl (\<lambda>d (k, v). setitem k v d) d kvs = d @ kvs"
proof (induction kvs arbitrary: d)
  case Nil
  then show ?case by simp
next
  case (Cons p kvs)
  obtain k v where p: "p = (k, v)" by (cases p)
  from Cons.prems have fresh: "k \<notin> fst ` set d" by (auto simp: p)
  have "foldl (\<lambda>d (k, v). setitem k v d) (d @ [(k, v)]) kvs = (d @ [(k, v)]) @ kvs"
    using Cons.prems by (intro Cons.IH) (auto simp: p)
  with fresh show ?case by (simp add: p setitem_fresh)
qed

lemma dict_distinct: "distinct (map fst kvs) \<Longrightarrow> dict kvs = kvs"
  using foldl_setitem [of kvs "[]"] by (simp add: dict_def)

lemma dumps_str_shape: "\<exists>r. dumps_str s = CHR 0x22 # r"
  by (simp add: dumps_str_def)

lemma str_int_shape:
  "(\<exists>c r. str_int i = c # r \<and> is_digit c) \<or> (\<exists>d r. str_int i = CHR ''-'' # d # r \<and> is_digit d)"
proof (cases "i < 0")
  case True
  from digits_shape [of "nat (- i)"] obtain c ds where "digits (nat (- i)) = c # ds" "is_digit c"
    by blast
  with True show ?thesis by (simp add: str_int_def)
next
  case False
  from digits_shape [of "nat i"] obtain c ds where "digits (nat i) = c # ds" "is_digit c"
    by blast
  with False show ?thesis by (simp add: str_int_def)
qed

lemma digit_vstart: "is_digit c \<Longrightarrow> vstart c"
  by (auto simp: is_digit_def vstart_def)

lemma digit_not_special:
  assumes "is_digit d"
  shows "d \<noteq> CHR 0x22" "d \<noteq> CHR ''{''" "d \<noteq> CHR ''[''" "d \<noteq> CHR ''n''" "d \<noteq> CHR ''t''"
    "d \<noteq> CHR ''f''" "d \<noteq> CHR ''N''" "d \<noteq> CHR ''I''" "d \<noteq> CHR ''-''"
  using assms by (auto simp: is_digit_def)

lemma scan_value_digit:
  "is_digit d \<Longrightarrow> scan_value (Suc n) (d # r) = scan_number (d # r)"
  by (simp add: digit_not_special)

lemma scan_value_minus:
  "is_digit d \<Longrightarrow> scan_value (Suc n) (CHR ''-'' # d # r) = scan_number (CHR ''-'' # d # r)"
  by (simp add: digit_not_special)

lemma scan_value_null: "scan_value (Suc n) (''null'' @ rest) = Scanned JNull rest"
  and scan_value_true: "scan_value (Suc n) (''true'' @ rest) = Scanned (JBool True) rest"
  and scan_value_false: "scan_value (Suc n) (''false'' @ rest) = Scanned (JBool False) rest"
  and scan_value_string: "scan_value (Suc n) (CHR 0x22 # X) = scan_map JStr (scanstring X)"
  and scan_value_empty_arr: "scan_value (Suc n) (''[]'' @ rest) = Scanned (JArr []) rest"
  and scan_value_empty_obj: "scan_value (Suc n) (''{}'' @ rest) = Scanned (JObj []) rest"
  and scan_value_obj: "scan_value (Suc n) (CHR ''{'' # CHR 0x22 # X)
     = scan_map (\<lambda>ps. JObj (dict ps)) (scan_members n (CHR 0x22 # X))"
  by (simp_all add: vstart_def)

lemma scan_value_arr:
  "vstart c \<Longrightarrow> scan_value (Suc n) (CHR ''['' # c # X) = scan_map JArr (scan_items n (c # X))"
proof -
  assume v: "vstart c"
  then have "c \<noteq> CHR '']''" by (auto simp: vstart_def)
  with v show ?thesis by simp
qed

lemma scan_items_last:
  "scan_value n s = Scanned v (CHR '']'' # r) \<Longrightarrow> scan_items (Suc n) s = Scanned [v] r"
  by simp

lemma scan_items_more:
  "scan_value n s = Scanned v (CHR '','' # CHR '' '' # c # r) \<Longrightarrow> vstart c \<Longrightarrow>
     scan_items (Suc n) s = scan_map ((#) v) (scan_items n (c # r))"
  by simp

lemma scan_members_last:
  "scanstring (tl s) = Scanned k (CHR '':'' # CHR '' '' # c # r) \<Longrightarrow> vstart c \<Longrightarrow>
   scan_value n (c # r) = Scanned v (CHR ''}'' # t) \<Longrightarrow>
     scan_members (Suc n) s = Scanned [(k, v)] t"
  by simp

lemma scan_members_more:
  "scanstring (tl s) = Scanned k (CHR '':'' # CHR '' '' # c # r) \<Longrightarrow> vstart c \<Longrightarrow>
   scan_value n (c # r) = Scanned v (CHR '','' # CHR '' '' # CHR 0x22 # t) \<Longrightarrow>
     scan_members (Suc n) s = scan_map ((#) (k, v)) (scan_members n (CHR 0x22 # t))"
  by (simp add: vstart_def)

declare scan_value.simps [simp del] scan_items.simps [simp del] scan_members.simps [simp del]

lemma scan_value_str_int:
  assumes "stops rest"
  shows "scan_value (Suc n) (str_int i @ rest) = Scanned (JInt i) rest"
proof -
  have "scan_value (Suc n) (str_int i @ rest) = scan_number (str_int i @ rest)"
    using str_int_shape [of i]
  proof (elim disjE exE conjE)
    fix c r assume "str_int i = c # r" "is_digit c"
    then show ?thesis by (simp add: scan_value_digit)
  next
    fix d r assume "str_int i = CHR ''-'' # d # r" "is_digit d"
    then show ?thesis by (simp add: scan_value_minus)
  qed
  with scan_number_str_int [OF assms, of i] show ?thesis by simp
qed

lemma dumps_start: "\<exists>c r. dumps j = c # r \<and> vstart c"
proof (cases j)
  case (JInt i)
  from str_int_shape [of i] have "\<exists>c r. str_int i = c # r \<and> vstart c"
    by (auto simp: digit_vstart) (simp add: vstart_def)
  with JInt show ?thesis by simp
next
  case (JStr s)
  then show ?thesis by (simp add: dumps_str_def vstart_def)
qed (auto simp: vstart_def)


lemma dumps_items_start: "xs \<noteq> [] \<Longrightarrow> \<exists>c r. dumps_items xs = c # r \<and> vstart c"
proof -
  assume "xs \<noteq> []"
  then obtain x ys where xs: "xs = x # ys" by (cases xs) auto
  from dumps_start [of x] obtain c r where "dumps x = c # r" "vstart c" by blast
  then show ?thesis by (cases ys) (simp_all add: xs)
qed

lemma dumps_members_start: "kvs \<noteq> [] \<Longrightarrow> \<exists>r. dumps_members kvs = CHR 0x22 # r"
proof -
  assume "kvs \<noteq> []"
  then obtain k v ps where kvs: "kvs = (k, v) # ps" by (cases kvs) auto
  then show ?thesis by (cases ps) (simp_all add: dumps_str_def)
qed

lemma roundtrip_scan:
  "(wf_json j \<longrightarrow> (\<forall>n rest. length (dumps j) \<le> n \<longrightarrow> stops rest \<longrightarrow>
       scan_value n (dumps j @ rest) = Scanned j rest))"
  "(xs \<noteq> [] \<longrightarrow> wf_items xs \<longrightarrow> (\<forall>n rest. length (dumps_items xs) < n \<longrightarrow>
       scan_items n (dumps_items xs @ CHR '']'' # rest) = Scanned xs rest))"
  "(kvs \<noteq> [] \<longrightarrow> wf_members kvs \<longrightarrow> (\<forall>n rest. length (dumps_members kvs) < n \<longrightarrow>
       scan_members n (dumps_members kvs @ CHR ''}'' # rest) = Scanned kvs rest))"
proof (induction j and xs and kvs rule: dumps_dumps_items_dumps_members.induct)
  case 1
  show ?case
  proof (intro impI allI)
    fix n rest assume "length (dumps JNull) \<le> n"
    then obtain m where "n = Suc m" by (cases n) auto
    then show "scan_value n (dumps JNull @ rest) = Scanned JNull rest"
      using scan_value_null [of m rest] by simp
  qed
next
  case (2 b)
  show ?case
  proof (intro impI allI)
    fix n rest assume "length (dumps (JBool b)) \<le> n"
    then obtain m where "n = Suc m" by (cases n) (auto split: if_splits)
    then show "scan_value n (dumps (JBool b) @ rest) = Scanned (JBool b) rest"
      using scan_value_true [of m rest] scan_value_false [of m rest] by simp
  qed
next
  case (3 i)
  show ?case
  proof (intro impI allI)
    fix n rest assume "length (dumps (JInt i)) \<le> n" and st: "stops rest"
    moreover have "str_int i \<noteq> []" using str_int_shape [of i] by auto
    ultimately obtain m where "n = Suc m" by (cases n) auto
    then show "scan_value n (dumps (JInt i) @ rest) = Scanned (JInt i) rest"
      using scan_value_str_int [OF st, of m i] by simp
  qed
next
  case (4 s)
  show ?case
  proof (intro impI allI)
    fix n rest assume "length (dumps (JStr s)) \<le> n"
    then obtain m where "n = Suc m" by (cases n) (auto simp: dumps_str_def)
    then show "scan_value n (dumps (JStr s) @ rest) = Scanned (JStr s) rest"
      using scan_value_string [of m "concat (map escape s) @ CHR 0x22 # rest"]
      by (simp add: dumps_str_def scanstring_escaped)
  qed
next
  case (5 xs)
  show ?case
  proof (intro impI allI)
    fix n rest assume wf: "wf_json (JArr xs)" and len: "length (dumps (JArr xs)) \<le> n"
    from len obtain m where n: "n = Suc m" by (cases n) auto
    show "scan_value n (dumps (JArr xs) @ rest) = Scanned (JArr xs) rest"
    proof (cases "xs = []")
      case True
      then show ?thesis using scan_value_empty_arr [of m rest] by (simp add: n)
    next
      case False
      from dumps_items_start [OF False] obtain c r where d: "dumps_items xs = c # r" and c: "vstart c"
        by blast
      from len n have "length (dumps_items xs) < m" by simp
      with 5 False wf
      have "scan_items m (dumps_items xs @ CHR '']'' # rest) = Scanned xs rest" by simp
      then show ?thesis
        using scan_value_arr [OF c, of m "r @ CHR '']'' # rest"] by (simp add: n d)
    qed
  qed
next
  case (6 kvs)
  show ?case
  proof (intro impI allI)
    fix n rest assume wf: "wf_json (JObj kvs)" and len: "length (dumps (JObj kvs)) \<le> n"
    from len obtain m where n: "n = Suc m" by (cases n) auto
    from wf have dk: "dict kvs = kvs" by (simp add: dict_distinct)
    show "scan_value n (dumps (JObj kvs) @ rest) = Scanned (JObj kvs) rest"
    proof (cases "kvs = []")
      case True
      then show ?thesis using scan_value_empty_obj [of m rest] by (simp add: n)
    next
      case False
      from dumps_members_start [OF False] obtain r where d: "dumps_members kvs = CHR 0x22 # r"
        by blast
      from len n have "length (dumps_members kvs) < m" by simp
      with 6 False wf
      have "scan_members m (dumps_members kvs @ CHR ''}'' # rest) = Scanned kvs rest" by simp
      then show ?thesis
        using scan_value_obj [of m "r @ CHR ''}'' # rest"] by (simp add: n d dk)
    qed
  qed
next
  case 7
  show ?case by simp
next
  case (8 x)
  show ?case
  proof (intro impI allI)
    fix n rest assume wf: "wf_items [x]" and len: "length (dumps_items [x]) < n"
    from len obtain m where n: "n = Suc m" by (cases n) auto
    have "stops (CHR '']'' # rest)" by (simp add: stops_def)
    with 8 wf len n have "scan_value m (dumps x @ CHR '']'' # rest) = Scanned x (CHR '']'' # rest)"
      by simp
    from scan_items_last [OF this] show "scan_items n (dumps_items [x] @ CHR '']'' # rest) = Scanned [x] rest"
      by (simp add: n)
  qed
next
  case (9 x y ys)
  show ?case
  proof (intro impI allI)
    fix n rest assume wf: "wf_items (x # y # ys)" and len: "length (dumps_items (x # y # ys)) < n"
    from len obtain m where n: "n = Suc m" by (cases n) auto
    let ?tail = "dumps_items (y # ys) @ CHR '']'' # rest"
    from dumps_items_start [of "y # ys"] obtain c r where d: "dumps_items (y # ys) = c # r"
      and c: "vstart c" by blast
    have "stops (CHR '','' # CHR '' '' # ?tail)" by (simp add: stops_def)
    with 9(1) wf len n
    have "scan_value m (dumps x @ CHR '','' # CHR '' '' # ?tail) = Scanned x (CHR '','' # CHR '' '' # ?tail)"
      by simp
    then have "scan_value m (dumps x @ CHR '','' # CHR '' '' # ?tail)
        = Scanned x (CHR '','' # CHR '' '' # c # r @ CHR '']'' # rest)"
      by (simp add: d)
    from scan_items_more [OF this c]
    have "scan_items (Suc m) (dumps x @ CHR '','' # CHR '' '' # ?tail)
        = scan_map ((#) x) (scan_items m ?tail)" by (simp add: d)
    moreover from 9(2) wf len n have "scan_items m ?tail = Scanned (y # ys) rest" by simp
    ultimately show "scan_items n (dumps_items (x # y # ys) @ CHR '']'' # rest) = Scanned (x # y # ys) rest"
      by (simp add: n)
  qed
next
  case 10
  show ?case by simp
next
  case (11 k v)
  show ?case
  proof (intro impI allI)
    fix n rest assume wf: "wf_members [(k, v)]" and len: "length (dumps_members [(k, v)]) < n"
    from len obtain m where n: "n = Suc m" by (cases n) auto
    from dumps_start [of v] obtain c r where d: "dumps v = c # r" and c: "vstart c" by blast
    let ?s = "dumps_members [(k, v)] @ CHR ''}'' # rest"
    have s: "scanstring (tl ?s) = Scanned k (CHR '':'' # CHR '' '' # c # r @ CHR ''}'' # rest)"
      using scanstring_escaped [of k "CHR '':'' # CHR '' '' # c # r @ CHR ''}'' # rest"]
      by (simp add: dumps_str_def d)
    have "stops (CHR ''}'' # rest)" by (simp add: stops_def)
    with 11 wf len n have "scan_value m (dumps v @ CHR ''}'' # rest) = Scanned v (CHR ''}'' # rest)"
      by (simp add: dumps_str_def)
    then have "scan_value m (c # r @ CHR ''}'' # rest) = Scanned v (CHR ''}'' # rest)"
      by (simp add: d)
    from scan_members_last [OF s c this] show "scan_members n ?s = Scanned [(k, v)] rest"
      by (simp add: n)
  qed
next
  case (12 k v p ps)
  show ?case
  proof (intro impI allI)
    fix n rest assume wf: "wf_members ((k, v) # p # ps)"
      and len: "length (dumps_members ((k, v) # p # ps)) < n"
    from len obtain m where n: "n = Suc m" by (cases n) auto
    from dumps_start [of v] obtain c r where d: "dumps v = c # r" and c: "vstart c" by blast
    from dumps_members_start [of "p # ps"] obtain t where t: "dumps_members (p # ps) = CHR 0x22 # t"
      by blast
    let ?tail = "dumps_members (p # ps) @ CHR ''}'' # rest"
    let ?s = "dumps_members ((k, v) # p # ps) @ CHR ''}'' # rest"
    have s: "scanstring (tl ?s) = Scanned k (CHR '':'' # CHR '' '' # c # r @ CHR '','' # CHR '' '' # ?tail)"
      using scanstring_escaped [of k "CHR '':'' # CHR '' '' # c # r @ CHR '','' # CHR '' '' # ?tail"]
      by (simp add: dumps_str_def d)
    have "stops (CHR '','' # CHR '' '' # ?tail)" by (simp add: stops_def)
    with 12(1) wf len n
    have "scan_value m (dumps v @ CHR '','' # CHR '' '' # ?tail) = Scanned v (CHR '','' # CHR '' '' # ?tail)"
      by (simp add: dumps_str_def)
    then have "scan_value m (c # r @ CHR '','' # CHR '' '' # ?tail)
         = Scanned v (CHR '','' # CHR '' '' # CHR 0x22 # t @ CHR ''}'' # rest)"
      by (simp add: d t)
    from scan_members_more [OF s c this]
    have "scan_members (Suc m) ?s = scan_map ((#) (k, v)) (scan_members m ?tail)"
      by (simp add: t)
    moreover from 12(2) wf len n have "scan_members m ?tail = Scanned (p # ps) rest"
      by (simp add: dumps_str_def)
    ultimately show "scan_members n ?s = Scanned ((k, v) # p # ps) rest"
      by (simp add: n)
  qed
qed

lemma loads_dumps: "wf_json j \<Longrightarrow> loads (dumps j) = Inr j"
proof -
  assume wf: "wf_json j"
  from dumps_start [of j] obtain c r where d: "dumps j = c # r" and c: "vstart c" by blast
  have "stops []" by (simp add: stops_def)
  with roundtrip_scan(1) [rule_format, of j "Suc (length (dumps j))" "[]"] wf
  have "scan_value (Suc (length (dumps j))) (dumps j) = Scanned j []" by simp
  moreover have "skip_ws (dumps j) = dumps j" using c by (simp add: d)
  ultimately show ?thesis by (simp add: loads_def)
qed

section \<open>Properties of the request dispatcher\<close>

lemma normalize_no_data: "normalize_body NoData = Inr (JObj [])"
  by code_simp

lemma normalize_uri_str: "normalize_uri (UriStr s) = Inr s"
  by (simp add: normalize_uri_def)

lemma call_returns:
  assumes "normalize_uri uri = Inr u" and "normalize_body data = Inr d"
    and "transport e (dispatch method u d h) = Returns r"
  shows "call e method uri data statuses log h =
          (logprint log (request_log (when_text e) method u d)
             @ logprint log (response_log (when_text e) r (delta e)),
           case check_status statuses r of Some x \<Rightarrow> Inl x | None \<Rightarrow> classify r)"
  using assms by (simp add: call_def Let_def split: option.split)

lemma check_status_default:
  "check_status None r =
     (if status_code r \<noteq> 400 \<and> 400 \<le> status_code r \<and> status_code r < 600
      then Some (Raised (HTTPError_new (JInt (status_code r))
             (JStr (str_int (status_code r)
                    @ (if status_code r < 500 then '' Client Error: '' else '' Server Error: '')
                    @ reason r @ '' for url: '' @ url r))))
      else None)"
  by (simp add: check_status_def raise_for_status_def)

lemma check_status_set:
  "S \<noteq> {} \<Longrightarrow> check_status (Some S) r =
     (if status_code r \<notin> S
      then Some (Raised (HTTPError_new (JInt (status_code r))
             (JStr (''Unexpected Status Code '' @ str_int (status_code r)))))
      else None)"
  by (simp add: check_status_def)

lemma classify_errors:
  assumes "decode_json r = Some (JObj kvs)"
    and "map_of kvs ''errors'' = Some (JArr (JObj err # others))"
  shows "classify r = Inl (Raised (APIError_new
           (case map_of err ''name'' of Some v \<Rightarrow> v | None \<Rightarrow> JNull)
           (case map_of err ''message'' of Some v \<Rightarrow> v | None \<Rightarrow> JNull)
           (JObj kvs)))"
proof -
  from assms(2) have "''errors'' \<in> fst ` set kvs"
    by (metis map_of_eq_None_iff option.distinct(1))
  with assms show ?thesis
    by (simp add: classify_def raise_api_error_def split: option.split)
qed

lemma classify_typed:
  assumes "case decode_json r of None \<Rightarrow> True | Some result \<Rightarrow> envelope_ok result"
    and "classify r = Inl x"
  shows "typed x"
proof (cases "decode_json r")
  case None
  with assms(2) show ?thesis
    by (auto simp: classify_def BadJSONError_new_def derives_def)
next
  case (Some result)
  with assms(1) have ok: "envelope_ok result" by simp
  show ?thesis
  proof (cases result)
    case (JObj kvs)
    show ?thesis
    proof (cases "map_of kvs ''errors''")
      case None
      then have "''errors'' \<notin> fst ` set kvs" by (simp add: map_of_eq_None_iff)
      with assms(2) Some JObj show ?thesis
        by (auto simp: classify_def BadResponseError_new_def derives_def split: if_splits bool.splits)
    next
      case (Some errs)
      with ok JObj obtain err others where "errs = JArr (JObj err # others)"
        by (auto split: json.splits list.splits)
      with Some have m: "map_of kvs ''errors'' = Some (JArr (JObj err # others))" by simp
      from classify_errors [OF _ m, of r] \<open>decode_json r = Some result\<close> JObj assms(2)
      show ?thesis by (auto simp: APIError_new_def derives_def)
    qed
  next
    case (JArr xs)
    with ok assms(2) Some show ?thesis
      by (auto simp: classify_def BadResponseError_new_def derives_def split: if_splits bool.splits)
  next
    case (JStr s)
    with ok assms(2) Some show ?thesis
      by (auto simp: classify_def BadResponseError_new_def derives_def split: if_splits bool.splits)
  qed (use ok in simp_all)
qed

lemma check_status_typed: "check_status statuses r = Some x \<Longrightarrow> typed x"
  by (auto simp: check_status_def HTTPError_new_def derives_def split: if_splits option.splits)

lemma mock_transport: "transport (mock_env out) request = out"
  by (simp add: mock_env_def)

lemma mock_fields:
  "status_code (mock_response s why j) = s"
  "reason (mock_response s why j) = why"
  "url (mock_response s why j) = ''http://x/y''"
  "decode_json (mock_response s why j) = j"
  by (simp_all add: mock_response_def)

subsection \<open>The error envelope and the status policy\<close>

text \<open>
  Claim C1, as stated: without an explicit status set, an \<^verbatim>\<open>errors\<close> array in the body
  takes precedence over the status code, so that a 404 response with the body
  \<^verbatim>\<open>{"errors": [{"name": "E1", "message": "missing"}]}\<close> raises an APIError with code
  \<^verbatim>\<open>E1\<close>. It does not: the status policy runs first, and the 404 is raised as an HTTPError
  with code 404 before the body is read.
\<close>

theorem errors_404_is_http_error:
  "snd (call (mock_env (Returns (mock_response 404 ''Not Found'' (Some e1_body))))
         ''GET'' (UriStr ''http://x/y'') NoData None False None)
     = Inl (Raised (HTTPError_new (JInt 404)
              (JStr ''404 Client Error: Not Found for url: http://x/y'')))
   \<and> snd (call (mock_env (Returns (mock_response 404 ''Not Found'' (Some e1_body))))
         ''GET'' (UriStr ''http://x/y'') NoData None False None)
     \<noteq> Inl (Raised (APIError_new (JStr ''E1'') (JStr ''missing'') e1_body))"
  by code_simp

text \<open>
  Claim C1, amended: without an explicit status set, a response that the status policy
  lets through (a status code up to 400, or 600 and above) and whose decoded body is an
  object with an \<^verbatim>\<open>errors\<close> array that starts with an object makes \<^verbatim>\<open>call\<close> raise an APIError
  with that entry's \<^verbatim>\<open>name\<close> as code and its \<^verbatim>\<open>message\<close> as details (\<^verbatim>\<open>None\<close> where the entry
  lacks them) and the whole decoded body attached.
\<close>

theorem errors_envelope_precedence:
  assumes "normalize_uri uri = Inr u" and "normalize_body data = Inr d"
    and "transport e (dispatch method u d h) = Returns r"
    and "status_code r \<le> 400 \<or> 600 \<le> status_code r"
    and "decode_json r = Some (JObj kvs)"
    and "map_of kvs ''errors'' = Some (JArr (JObj err # others))"
  shows "snd (call e method uri data None log h) =
           Inl (Raised (APIError_new
             (case map_of err ''name'' of Some v \<Rightarrow> v | None \<Rightarrow> JNull)
             (case map_of err ''message'' of Some v \<Rightarrow> v | None \<Rightarrow> JNull)
             (JObj kvs)))"
proof -
  from assms(4) have "check_status None r = None"
    by (auto simp: check_status_default)
  with call_returns [OF assms(1-3)] classify_errors [OF assms(5,6)] show ?thesis
    by simp
qed

theorem errors_envelope_precedence_witness:
  "normalize_uri (UriStr ''http://x/y'') = Inr ''http://x/y''
   \<and> normalize_body NoData = Inr (JObj [])
   \<and> transport (mock_env (Returns (mock_response 400 ''Bad Request'' (Some e1_body))))
        (dispatch ''GET'' ''http://x/y'' (JObj []) None)
       = Returns (mock_response 400 ''Bad Request'' (Some e1_body))
   \<and> snd (call (mock_env (Returns (mock_response 400 ''Bad Request'' (Some e1_body))))
         ''GET'' (UriStr ''http://x/y'') NoData None False None)
       = Inl (Raised (APIError_new (JStr ''E1'') (JStr ''missing'') e1_body))"
proof -
  let ?r = "mock_response 400 ''Bad Request'' (Some e1_body)"
  have h1: "normalize_uri (UriStr ''http://x/y'') = Inr ''http://x/y''" by (rule normalize_uri_str)
  have h2: "normalize_body NoData = Inr (JObj [])" by (rule normalize_no_data)
  have h3: "transport (mock_env (Returns ?r)) (dispatch ''GET'' ''http://x/y'' (JObj []) None) = Returns ?r"
    by (rule mock_transport)
  have h4: "status_code ?r \<le> 400 \<or> 600 \<le> status_code ?r" by (simp add: mock_fields)
  have h5: "decode_json ?r = Some (JObj [(''errors'', JArr [JObj [(''name'', JStr ''E1''), (''message'', JStr ''missing'')]])])"
    by (simp add: mock_fields e1_body_def)
  have h6: "map_of [(''errors'', JArr [JObj [(''name'', JStr ''E1''), (''message'', JStr ''missing'')]])] ''errors''
      = Some (JArr (JObj [(''name'', JStr ''E1''), (''message'', JStr ''missing'')] # []))"
    by simp
  from errors_envelope_precedence [OF h1 h2 h3 h4 h5 h6, of False] h1 h2 h3
  show ?thesis by (simp add: e1_body_def)
qed

text \<open>
  Claim C5, as stated: without a status set, every status code of 401 and above raises a
  status-derived HTTPError. \<^verbatim>\<open>raise_for_status\<close> raises for the codes 400 to 599 only: a
  response with status 600 and the body \<^verbatim>\<open>{"data": {}}\<close> is returned as a success.
\<close>

theorem status_600_is_accepted:
  "snd (call (mock_env (Returns (mock_response 600 ''Custom'' (Some data_body))))
         ''GET'' (UriStr ''http://x/y'') NoData None False None)
     = Inr data_body"
  by code_simp

text \<open>
  Claim C5, amended: without a status set, a status code below 400 and the code 400 are
  no error (the call goes on to read the body), and every code from 401 to 599 raises an
  HTTPError that carries the code and the text of the library's status error.
\<close>

theorem default_status_policy:
  assumes "normalize_uri uri = Inr u" and "normalize_body data = Inr d"
    and "transport e (dispatch method u d h) = Returns r"
  shows "(status_code r \<le> 400 \<longrightarrow> snd (call e method uri data None log h) = classify r)
       \<and> (401 \<le> status_code r \<and> status_code r < 600 \<longrightarrow>
            snd (call e method uri data None log h) =
              Inl (Raised (HTTPError_new (JInt (status_code r))
                (JStr (str_int (status_code r)
                       @ (if status_code r < 500 then '' Client Error: '' else '' Server Error: '')
                       @ reason r @ '' for url: '' @ url r)))))"
  using call_returns [OF assms, of None log]
  by (auto simp: check_status_default)

theorem default_status_policy_witness:
  "normalize_uri (UriStr ''http://x/y'') = Inr ''http://x/y''
   \<and> normalize_body NoData = Inr (JObj [])
   \<and> transport (mock_env (Returns (mock_response 503 ''Service Unavailable'' (Some data_body))))
        (dispatch ''GET'' ''http://x/y'' (JObj []) None)
       = Returns (mock_response 503 ''Service Unavailable'' (Some data_body))
   \<and> snd (call (mock_env (Returns (mock_response 503 ''Service Unavailable'' (Some data_body))))
         ''GET'' (UriStr ''http://x/y'') NoData None False None)
       = Inl (Raised (HTTPError_new (JInt 503)
           (JStr (str_int 503 @ '' Server Error: Service Unavailable for url: http://x/y''))))
   \<and> transport (mock_env (Returns (mock_response 400 ''Bad Request'' (Some data_body))))
        (dispatch ''GET'' ''http://x/y'' (JObj []) None)
       = Returns (mock_response 400 ''Bad Request'' (Some data_body))
   \<and> snd (call (mock_env (Returns (mock_response 400 ''Bad Request'' (Some data_body))))
         ''GET'' (UriStr ''http://x/y'') NoData None False None)
       = classify (mock_response 400 ''Bad Request'' (Some data_body))"
proof -
  let ?r = "mock_response 503 ''Service Unavailable'' (Some data_body)"
  let ?q = "mock_response 400 ''Bad Request'' (Some data_body)"
  have h1: "normalize_uri (UriStr ''http://x/y'') = Inr ''http://x/y''" by (rule normalize_uri_str)
  have h2: "normalize_body NoData = Inr (JObj [])" by (rule normalize_no_data)
  have h3: "transport (mock_env (Returns ?r)) (dispatch ''GET'' ''http://x/y'' (JObj []) None) = Returns ?r"
    by (rule mock_transport)
  have h4: "transport (mock_env (Returns ?q)) (dispatch ''GET'' ''http://x/y'' (JObj []) None) = Returns ?q"
    by (rule mock_transport)
  from default_status_policy [OF h1 h2 h3, of False] default_status_policy [OF h1 h2 h4, of False]
    h1 h2 h3 h4
  show ?thesis by (simp add: mock_fields)
qed

text \<open>
  Claim C6, as stated: with a status set supplied, a response whose status code is not in
  the set raises an HTTPError. An empty set is falsy, so \<^verbatim>\<open>not statuses\<close> holds and the
  default policy applies: with \<^verbatim>\<open>statuses=set()\<close> a response with status 200, which is not
  in the set, is returned as a success.
\<close>

theorem empty_status_set_is_default:
  "snd (call (mock_env (Returns (mock_response 200 ''OK'' (Some data_body))))
         ''GET'' (UriStr ''http://x/y'') NoData (Some {}) False None)
     = Inr data_body"
  by code_simp

text \<open>
  Claim C6, amended: with a non-empty status set supplied, a response whose status code
  is not in the set raises an HTTPError with that code and the message
  \<^verbatim>\<open>Unexpected Status Code\<close> followed by the code; a 403 with \<^verbatim>\<open>statuses={200, 400}\<close> raises an
  HTTPError with code 403.
\<close>

theorem explicit_status_policy:
  assumes "normalize_uri uri = Inr u" and "normalize_body data = Inr d"
    and "transport e (dispatch method u d h) = Returns r"
    and "S \<noteq> {}" and "status_code r \<notin> S"
  shows "snd (call e method uri data (Some S) log h) =
           Inl (Raised (HTTPError_new (JInt (status_code r))
             (JStr (''Unexpected Status Code '' @ str_int (status_code r)))))"
  using call_returns [OF assms(1-3), of "Some S" log] assms(4,5)
  by (simp add: check_status_set)

theorem explicit_status_policy_witness:
  "normalize_uri (UriStr ''http://x/y'') = Inr ''http://x/y''
   \<and> normalize_body NoData = Inr (JObj [])
   \<and> transport (mock_env (Returns (mock_response 403 ''Forbidden'' (Some data_body))))
        (dispatch ''GET'' ''http://x/y'' (JObj []) None)
       = Returns (mock_response 403 ''Forbidden'' (Some data_body))
   \<and> {200, 400} \<noteq> ({} :: int set)
   \<and> status_code (mock_response 403 ''Forbidden'' (Some data_body)) \<notin> {200, 400}
   \<and> snd (call (mock_env (Returns (mock_response 403 ''Forbidden'' (Some data_body))))
         ''GET'' (UriStr ''http://x/y'') NoData (Some {200, 400}) False None)
       = Inl (Raised (HTTPError_new (JInt 403) (JStr (''Unexpected Status Code '' @ str_int 403))))"
proof -
  let ?r = "mock_response 403 ''Forbidden'' (Some data_body)"
  have h1: "normalize_uri (UriStr ''http://x/y'') = Inr ''http://x/y''" by (rule normalize_uri_str)
  have h2: "normalize_body NoData = Inr (JObj [])" by (rule normalize_no_data)
  have h3: "transport (mock_env (Returns ?r)) (dispatch ''GET'' ''http://x/y'' (JObj []) None) = Returns ?r"
    by (rule mock_transport)
  have h4: "{200, 400} \<noteq> ({} :: int set)" by simp
  have h5: "status_code ?r \<notin> {200, 400}" by (simp add: mock_fields)
  from explicit_status_policy [OF h1 h2 h3 h4 h5, of False] h1 h2 h3 h4 h5
  show ?thesis by (simp add: mock_fields)
qed

end
